theory Spec2Isabelle
  imports Complex_Main
begin

section \<open>Python values, exceptions and strings\<close>

text \<open>
  The only exception the analyzer can raise is the \<open>KeyError\<close> of a failed dictionary
  subscript; it carries the missing key.
\<close>

datatype error = KeyError string

text \<open>Values of the open \<open>metadata\<close> and \<open>context\<close> dictionaries; the analyzer never inspects them.\<close>

datatype py_value = PyNone | PyBool bool | PyInt int | PyStr string

type_synonym metadata = "(string \<times> py_value) list"

text \<open>\<open>str.startswith\<close>.\<close>

definition startswith :: "string \<Rightarrow> string \<Rightarrow> bool" where
  "startswith s p = (take (length p) s = p)"

text \<open>
  \<open>str.replace(old, new)\<close>: every non-overlapping occurrence of \<open>old\<close>, scanning from the
  left, is replaced by \<open>new\<close>. For an empty \<open>old\<close> Python puts \<open>new\<close> before every
  character and at the end.
\<close>

function str_replace :: "string \<Rightarrow> string \<Rightarrow> string \<Rightarrow> string" where
  "str_replace old new s =
     (if old = [] then concat (map (\<lambda>c. new @ [c]) s) @ new
      else if s = [] then []
      else if startswith s old then new @ str_replace old new (drop (length old) s)
      else hd s # str_replace old new (tl s))"
  by pat_completeness auto
termination
  by (relation "measure (\<lambda>(old, new, s). length s)") auto

text \<open>\<open>sep.join(xs)\<close>.\<close>

fun join :: "string \<Rightarrow> string list \<Rightarrow> string" where
  "join sep [] = []"
| "join sep [x] = x"
| "join sep (x # y # ys) = x @ sep @ join sep (y # ys)"

text \<open>\<open>str(n)\<close> for a non-negative integer, and a number zero-padded to a width.\<close>

definition digit_char :: "nat \<Rightarrow> char" where
  "digit_char n = ''0123456789'' ! (n mod 10)"

function str_of_nat :: "nat \<Rightarrow> string" where
  "str_of_nat n = (if n < 10 then [digit_char n] else str_of_nat (n div 10) @ [digit_char n])"
  by pat_completeness auto
termination
  by (relation "measure id") auto

definition zero_pad :: "nat \<Rightarrow> nat \<Rightarrow> string" where
  "zero_pad w n = replicate (w - length (str_of_nat n)) (CHR ''0'') @ str_of_nat n"

section \<open>Naive datetimes\<close>

text \<open>
  Every entry of the log carries \<open>datetime.now().isoformat()\<close>, and the analyses read it back
  with \<open>datetime.fromisoformat\<close>. The two are inverse to each other on naive datetimes, so the
  model stores the datetime itself. The clock reading is a parameter of the tracking calls.
\<close>

record datetime =
  year :: nat
  month :: nat
  day :: nat
  hour :: nat
  minute :: nat
  second :: nat
  microsecond :: nat

definition is_leap :: "nat \<Rightarrow> bool" where
  "is_leap y = (y mod 4 = 0 \<and> (y mod 100 \<noteq> 0 \<or> y mod 400 = 0))"

definition days_before_year :: "nat \<Rightarrow> nat" where
  "days_before_year yr = (let y = yr - 1 in y * 365 + y div 4 - y div 100 + y div 400)"

definition DAYS_IN_MONTH :: "nat list" where
  "DAYS_IN_MONTH = [0, 31, 28, 31, 30, 31, 30, 31, 31, 30, 31, 30, 31]"

definition days_in_month :: "nat \<Rightarrow> nat \<Rightarrow> nat" where
  "days_in_month y m = (if m = 2 \<and> is_leap y then 29 else DAYS_IN_MONTH ! m)"

definition DAYS_BEFORE_MONTH :: "nat list" where
  "DAYS_BEFORE_MONTH = [0, 0, 31, 59, 90, 120, 151, 181, 212, 243, 273, 304, 334]"

definition days_before_month :: "nat \<Rightarrow> nat \<Rightarrow> nat" where
  "days_before_month y m = DAYS_BEFORE_MONTH ! m + (if m > 2 \<and> is_leap y then 1 else 0)"

definition toordinal :: "datetime \<Rightarrow> nat" where
  "toordinal d = days_before_year (year d) + days_before_month (year d) (month d) + day d"

definition valid_datetime :: "datetime \<Rightarrow> bool" where
  "valid_datetime d =
     (1 \<le> year d \<and> year d \<le> 9999 \<and> 1 \<le> month d \<and> month d \<le> 12 \<and>
      1 \<le> day d \<and> day d \<le> days_in_month (year d) (month d) \<and>
      hour d < 24 \<and> minute d < 60 \<and> second d < 60 \<and> microsecond d < 1000000)"

text \<open>\<open>strftime("%A")\<close> in the C locale: \<open>weekday()\<close> is \<open>(toordinal() + 6) % 7\<close>, Monday first.\<close>

definition DAY_NAMES :: "string list" where
  "DAY_NAMES = [''Monday'', ''Tuesday'', ''Wednesday'', ''Thursday'', ''Friday'',
                ''Saturday'', ''Sunday'']"

definition weekday :: "datetime \<Rightarrow> nat" where
  "weekday d = (toordinal d + 6) mod 7"

definition strftime_A :: "datetime \<Rightarrow> string" where
  "strftime_A d = DAY_NAMES ! weekday d"

text \<open>\<open>strftime('%Y-%m-%d %H:%M:%S')\<close>.\<close>

definition strftime_ymd_hms :: "datetime \<Rightarrow> string" where
  "strftime_ymd_hms d =
     str_of_nat (year d) @ ''-'' @ zero_pad 2 (month d) @ ''-'' @ zero_pad 2 (day d) @ '' '' @
     zero_pad 2 (hour d) @ '':'' @ zero_pad 2 (minute d) @ '':'' @ zero_pad 2 (second d)"

text \<open>Datetimes compare as the tuples of their fields, lexicographically.\<close>

fun tuple_less :: "nat list \<Rightarrow> nat list \<Rightarrow> bool" where
  "tuple_less [] [] = False"
| "tuple_less [] (y # ys) = True"
| "tuple_less (x # xs) [] = False"
| "tuple_less (x # xs) (y # ys) = (x < y \<or> (x = y \<and> tuple_less xs ys))"

definition dt_fields :: "datetime \<Rightarrow> nat list" where
  "dt_fields d = [year d, month d, day d, hour d, minute d, second d, microsecond d]"

definition dt_less :: "datetime \<Rightarrow> datetime \<Rightarrow> bool" where
  "dt_less a b = tuple_less (dt_fields a) (dt_fields b)"

text \<open>
  \<open>max(xs)\<close> and \<open>min(xs)\<close> of a non-empty list keep the first item and replace it by a later
  item only when that one is strictly greater (smaller).
\<close>

fun max_from :: "datetime \<Rightarrow> datetime list \<Rightarrow> datetime" where
  "max_from best [] = best"
| "max_from best (x # xs) = max_from (if dt_less best x then x else best) xs"

fun min_from :: "datetime \<Rightarrow> datetime list \<Rightarrow> datetime" where
  "min_from best [] = best"
| "min_from best (x # xs) = min_from (if dt_less x best then x else best) xs"

text \<open>They are called on non-empty lists only.\<close>

definition dt_max :: "datetime list \<Rightarrow> datetime" where
  "dt_max xs = max_from (hd xs) (tl xs)"

definition dt_min :: "datetime list \<Rightarrow> datetime" where
  "dt_min xs = min_from (hd xs) (tl xs)"

text \<open>
  The difference of two datetimes is a \<open>timedelta\<close>, held here as its number of microseconds:
  the difference of the ordinals in days, of the seconds of the day, and of the microseconds.
\<close>

definition day_seconds :: "datetime \<Rightarrow> nat" where
  "day_seconds d = second d + minute d * 60 + hour d * 3600"

definition dt_sub :: "datetime \<Rightarrow> datetime \<Rightarrow> int" where
  "dt_sub a b =
     (int (toordinal a) - int (toordinal b)) * 86400000000 +
     (int (day_seconds a) - int (day_seconds b)) * 1000000 +
     (int (microsecond a) - int (microsecond b))"

text \<open>
  \<open>timedelta.total_seconds()\<close>. Python's true division yields a float; the model computes
  every quotient exactly, in the rationals.
\<close>

definition total_seconds :: "int \<Rightarrow> rat" where
  "total_seconds td = of_int td / 1000000"

section \<open>Configuration\<close>

text \<open>The table \<open>SUGGESTION_THRESHOLDS\<close> of \<open>ai_config.py\<close>, and a subscript on it.\<close>

definition SUGGESTION_THRESHOLDS :: "(string \<times> rat) list" where
  "SUGGESTION_THRESHOLDS =
     [(''feature_usage_high'', 100),
      (''feature_usage_low'', 10),
      (''error_rate_critical'', 5 / 100),
      (''error_rate_warning'', 2 / 100),
      (''response_time_critical'', 2000),
      (''response_time_warning'', 1000),
      (''adoption_rate_low'', 3 / 10),
      (''adoption_rate_high'', 7 / 10)]"

definition subscript :: "(string \<times> 'v) list \<Rightarrow> string \<Rightarrow> error + 'v" where
  "subscript d k = (case map_of d k of None \<Rightarrow> Inl (KeyError k) | Some v \<Rightarrow> Inr v)"

section \<open>The engine state\<close>

record event =
  etype :: string
  user_id :: string
  timestamp :: datetime
  metadata :: metadata

record error_occurrence =
  err_user_id :: string
  err_timestamp :: datetime
  err_context :: metadata

text \<open>
  Python dictionaries keep their keys in insertion order, and the analyses depend on it, so a
  dictionary is an association list with distinct keys, oldest key first.
\<close>

record analyzer_state =
  events :: "event list"
  user_sessions :: "(string \<times> event list) list"
  feature_usage :: "(string \<times> nat) list"
  error_patterns :: "(string \<times> error_occurrence list) list"

text \<open>\<open>__init__\<close>.\<close>

definition init :: analyzer_state where
  "init = \<lparr>events = [], user_sessions = [], feature_usage = [], error_patterns = []\<rparr>"

text \<open>
  \<open>d[k] = f(d[k])\<close> on a \<open>defaultdict\<close> whose missing entries read as \<open>dflt\<close>: an existing
  key keeps its place, a new key goes to the end.
\<close>

fun dict_upd :: "('v \<Rightarrow> 'v) \<Rightarrow> 'v \<Rightarrow> 'k \<Rightarrow> ('k \<times> 'v) list \<Rightarrow> ('k \<times> 'v) list" where
  "dict_upd f dflt k [] = [(k, f dflt)]"
| "dict_upd f dflt k ((k', v) # d) =
     (if k' = k then (k', f v) # d else (k', v) # dict_upd f dflt k d)"

definition dict_incr :: "'k \<Rightarrow> ('k \<times> nat) list \<Rightarrow> ('k \<times> nat) list" where
  "dict_incr k d = dict_upd Suc 0 k d"

definition dict_append :: "'k \<Rightarrow> 'a \<Rightarrow> ('k \<times> 'a list) list \<Rightarrow> ('k \<times> 'a list) list" where
  "dict_append k x d = dict_upd (\<lambda>xs. xs @ [x]) [] k d"

text \<open>
  A method call returns the exception it raised or its value, together with the engine state
  it leaves behind.
\<close>

type_synonym 'a outcome = "(error + 'a) \<times> analyzer_state"

section \<open>Ingestion\<close>

definition or_empty :: "metadata option \<Rightarrow> metadata" where
  "or_empty md = (case md of None \<Rightarrow> [] | Some m \<Rightarrow> m)"

definition track_event ::
  "string \<Rightarrow> string \<Rightarrow> metadata option \<Rightarrow> datetime \<Rightarrow> analyzer_state \<Rightarrow> unit outcome" where
  "track_event event_type uid md now s =
     (let ev = \<lparr>etype = event_type, user_id = uid, timestamp = now, metadata = or_empty md\<rparr>;
          s1 = s\<lparr>events := events s @ [ev]\<rparr>;
          s2 = s1\<lparr>user_sessions := dict_append uid ev (user_sessions s1)\<rparr>
      in if startswith event_type ''feature_''
         then (let feature_name = str_replace ''feature_'' '''' event_type
               in (Inr (), s2\<lparr>feature_usage := dict_incr feature_name (feature_usage s2)\<rparr>))
         else (Inr (), s2))"

definition track_error ::
  "string \<Rightarrow> string \<Rightarrow> metadata option \<Rightarrow> datetime \<Rightarrow> analyzer_state \<Rightarrow> unit outcome" where
  "track_error error_type uid ctx now s =
     (let err = \<lparr>err_user_id = uid, err_timestamp = now, err_context = or_empty ctx\<rparr>
      in (Inr (), s\<lparr>error_patterns := dict_append error_type err (error_patterns s)\<rparr>))"

section \<open>Feature adoption\<close>

record feature_adoption =
  total_uses :: nat
  unique_users :: nat
  adoption_rate :: rat
  status :: string

text \<open>The result is the dictionary \<open>{"error": msg}\<close> or the one with the three keys below.\<close>

datatype adoption_result =
  NoUsageData string
| Adoption (total_features: nat) (features: "(string \<times> feature_adoption) list")
    (fa_insights: "string list")

text \<open>The two nested loops that collect the set \<open>users_using_feature\<close>.\<close>

definition users_using_feature :: "string \<Rightarrow> (string \<times> event list) list \<Rightarrow> string set" where
  "users_using_feature feature sessions =
     fold (\<lambda>(uid, evs) acc.
             fold (\<lambda>ev acc'. if etype ev = ''feature_'' @ feature then insert uid acc' else acc')
                  evs acc)
          sessions {}"

definition get_adoption_status :: "rat \<Rightarrow> string" where
  "get_adoption_status rate =
     (if rate \<ge> 7 / 10 then ''high_adoption''
      else if rate \<ge> 3 / 10 then ''moderate_adoption''
      else ''low_adoption'')"

definition generate_adoption_insights :: "(string \<times> feature_adoption) list \<Rightarrow> string list" where
  "generate_adoption_insights adoption_rates =
     (let low_adoption_features =
            map fst (filter (\<lambda>(f, data). adoption_rate data < 3 / 10) adoption_rates);
          insights1 =
            (if low_adoption_features \<noteq> []
             then [''Low adoption detected for: '' @ join '', '' low_adoption_features @ ''. '' @
                   ''Consider improving discoverability or user education.'']
             else []);
          high_value_features =
            map fst (filter (\<lambda>(f, data). adoption_rate data > 7 / 10 \<and> total_uses data > 100)
                       adoption_rates)
      in if high_value_features \<noteq> []
         then insights1 @
              [''High-value features: '' @ join '', '' high_value_features @ ''. '' @
               ''Consider expanding these capabilities.'']
         else insights1)"

text \<open>\<open>d[k] = v\<close> on a plain dictionary.\<close>

definition dict_set :: "'k \<Rightarrow> 'v \<Rightarrow> ('k \<times> 'v) list \<Rightarrow> ('k \<times> 'v) list" where
  "dict_set k v d = dict_upd (\<lambda>_. v) v k d"

definition feature_entry ::
  "nat \<Rightarrow> (string \<times> event list) list \<Rightarrow> string \<Rightarrow> nat \<Rightarrow> feature_adoption" where
  "feature_entry total_users sessions feature count =
     (let users = users_using_feature feature sessions;
          rate = of_nat (card users) / of_nat total_users
      in \<lparr>total_uses = count, unique_users = card users, adoption_rate = rate,
          status = get_adoption_status rate\<rparr>)"

definition analyze_feature_adoption :: "analyzer_state \<Rightarrow> adoption_result outcome" where
  "analyze_feature_adoption s =
     (let total_users = length (user_sessions s)
      in if total_users = 0 then (Inr (NoUsageData ''No usage data available''), s)
         else
           (let adoption_rates =
                  fold (\<lambda>(feature, count) acc.
                          dict_set feature
                            (feature_entry total_users (user_sessions s) feature count) acc)
                       (feature_usage s) []
            in (Inr (Adoption (length adoption_rates) adoption_rates
                       (generate_adoption_insights adoption_rates)), s)))"

section \<open>User journeys\<close>

record journey_result =
  total_patterns :: nat
  most_common_patterns :: "(string \<times> nat) list"
  uj_insights :: "string list"

text \<open>The inner loop over \<open>range(len(events) - 1)\<close> for one user's session.\<close>

definition session_patterns :: "event list \<Rightarrow> (string \<times> nat) list \<Rightarrow> (string \<times> nat) list" where
  "session_patterns evs jp =
     fold (\<lambda>i acc. dict_incr (etype (evs ! i) @ '' -> '' @ etype (evs ! (i + 1))) acc)
          [0 ..< length evs - 1] jp"

definition journey_patterns :: "(string \<times> event list) list \<Rightarrow> (string \<times> nat) list" where
  "journey_patterns sessions =
     fold (\<lambda>(uid, evs) acc. if length evs < 2 then acc else session_patterns evs acc)
          sessions []"

text \<open>
  \<open>sorted(items, key=lambda x: x[1], reverse=True)\<close>: descending in the count, and stable, so
  items of equal count keep the order they had.
\<close>

fun insort_desc :: "('k \<times> nat) \<Rightarrow> ('k \<times> nat) list \<Rightarrow> ('k \<times> nat) list" where
  "insort_desc x [] = [x]"
| "insort_desc x (y # ys) = (if snd y \<le> snd x then x # y # ys else y # insort_desc x ys)"

definition sorted_desc :: "('k \<times> nat) list \<Rightarrow> ('k \<times> nat) list" where
  "sorted_desc xs = foldr insort_desc xs []"

text \<open>
  \<open>_generate_journey_insights\<close>: the threshold is read from the configuration table for
  every pattern of the list, before the comparison.
\<close>

fun generate_journey_insights ::
  "(string \<times> nat) list \<Rightarrow> string list \<Rightarrow> error + string list" where
  "generate_journey_insights [] insights = Inr insights"
| "generate_journey_insights ((pattern, count) # ps) insights =
     (case subscript SUGGESTION_THRESHOLDS ''pattern_frequency_threshold'' of
        Inl e \<Rightarrow> Inl e
      | Inr threshold \<Rightarrow>
          generate_journey_insights ps
            (if of_nat count > threshold
             then insights @
                  [''Common pattern '' @ [CHR 0x27] @ pattern @ [CHR 0x27] @ '' occurs '' @
                   str_of_nat count @ '' times. '' @ ''Consider optimizing this workflow.'']
             else insights))"

definition analyze_user_journeys :: "analyzer_state \<Rightarrow> journey_result outcome" where
  "analyze_user_journeys s =
     (let jp = journey_patterns (user_sessions s);
          sorted_patterns = sorted_desc jp
      in case generate_journey_insights (take 10 sorted_patterns) [] of
           Inl e \<Rightarrow> (Inl e, s)
         | Inr insights \<Rightarrow>
             (Inr \<lparr>total_patterns = length jp,
                   most_common_patterns = take 10 sorted_patterns,
                   uj_insights = insights\<rparr>, s))"

section \<open>Error patterns\<close>

record error_analysis =
  occurrences :: nat
  affected_users :: nat
  frequency_per_day :: rat
  severity :: string

record error_result =
  total_error_types :: nat
  errors :: "(string \<times> error_analysis) list"
  ep_insights :: "string list"

definition assess_error_severity :: "nat \<Rightarrow> nat \<Rightarrow> string" where
  "assess_error_severity occs users =
     (if occs > 50 \<or> users > 10 then ''critical''
      else if occs > 20 \<or> users > 5 then ''high''
      else if occs > 5 then ''medium''
      else ''low'')"

definition generate_error_insights :: "(string \<times> error_analysis) list \<Rightarrow> string list" where
  "generate_error_insights analysis =
     (let critical_errors =
            map fst (filter (\<lambda>(err, data). severity data \<in> set [''critical'', ''high''])
                       analysis)
      in if critical_errors \<noteq> []
         then [''Critical/High severity errors detected: '' @ join '', '' critical_errors @
               ''. '' @ ''Immediate attention required.'']
         else [])"

definition time_span :: "datetime list \<Rightarrow> int" where
  "time_span timestamps = dt_sub (dt_max timestamps) (dt_min timestamps)"

definition error_frequency :: "error_occurrence list \<Rightarrow> rat" where
  "error_frequency occs =
     (let timestamps = map err_timestamp occs
      in if timestamps \<noteq> []
         then (let days = total_seconds (time_span timestamps) / 86400
               in of_nat (length occs) / max days 1)
         else 0)"

definition error_entry :: "error_occurrence list \<Rightarrow> error_analysis" where
  "error_entry occs =
     (let users = set (map err_user_id occs)
      in \<lparr>occurrences = length occs, affected_users = card users,
          frequency_per_day = error_frequency occs,
          severity = assess_error_severity (length occs) (card users)\<rparr>)"

definition analyze_error_patterns :: "analyzer_state \<Rightarrow> error_result outcome" where
  "analyze_error_patterns s =
     (let analysis =
            fold (\<lambda>(error_type, occs) acc. dict_set error_type (error_entry occs) acc)
                 (error_patterns s) []
      in (Inr \<lparr>total_error_types = length analysis, errors = analysis,
               ep_insights = generate_error_insights analysis\<rparr>, s))"

section \<open>Time patterns\<close>

record time_result =
  hourly_distribution :: "(nat \<times> nat) list"
  daily_distribution :: "(string \<times> nat) list"
  peak_hour :: nat
  peak_day :: string
  tp_insights :: "string list"

text \<open>
  \<open>max(items, key=lambda x: x[1])\<close>: the first item stays unless a later one has a strictly
  greater count.
\<close>

fun max_by_count :: "('k \<times> nat) \<Rightarrow> ('k \<times> nat) list \<Rightarrow> ('k \<times> nat)" where
  "max_by_count best [] = best"
| "max_by_count best (x # xs) = max_by_count (if snd best < snd x then x else best) xs"

definition peak_of :: "('k \<times> nat) \<Rightarrow> ('k \<times> nat) list \<Rightarrow> ('k \<times> nat)" where
  "peak_of dflt activity = (case activity of [] \<Rightarrow> dflt | x # xs \<Rightarrow> max_by_count x xs)"

definition hourly_activity :: "event list \<Rightarrow> (nat \<times> nat) list" where
  "hourly_activity evs = fold (\<lambda>ev acc. dict_incr (hour (timestamp ev)) acc) evs []"

definition daily_activity :: "event list \<Rightarrow> (string \<times> nat) list" where
  "daily_activity evs = fold (\<lambda>ev acc. dict_incr (strftime_A (timestamp ev)) acc) evs []"

definition analyze_time_patterns :: "analyzer_state \<Rightarrow> time_result outcome" where
  "analyze_time_patterns s =
     (let hourly = hourly_activity (events s);
          daily = daily_activity (events s);
          peak_h = peak_of (0, 0) hourly;
          peak_d = peak_of ('''', 0) daily
      in (Inr \<lparr>hourly_distribution = hourly, daily_distribution = daily,
               peak_hour = fst peak_h, peak_day = fst peak_d,
               tp_insights =
                 [''Peak usage hour: '' @ str_of_nat (fst peak_h) @ '':00 with '' @
                    str_of_nat (snd peak_h) @ '' events'',
                  ''Peak usage day: '' @ fst peak_d @ '' with '' @
                    str_of_nat (snd peak_d) @ '' events'',
                  ''Consider scheduling maintenance during low-activity periods'']\<rparr>, s))"

section \<open>The report\<close>

definition rule80 :: string where
  "rule80 = replicate 80 (CHR ''='')"

definition nl :: string where
  "nl = [CHR 0x0A]"

text \<open>The bullet of the report lines, U+2022, in UTF-8.\<close>

definition bullet :: string where
  "bullet = [CHR 0xE2, CHR 0x80, CHR 0xA2]"

text \<open>
  The report prints each rate with \<open>format(x, '.1%')\<close>, which formats the double nearest to
  the rate. Floating point is outside this model, so the formatter of a rate is a parameter of
  the report: whatever the report proves holds for the formatter Python uses.
\<close>

definition adoption_lines :: "(rat \<Rightarrow> string) \<Rightarrow> adoption_result \<Rightarrow> string list" where
  "adoption_lines format_percent adoption =
     (case adoption of
        NoUsageData msg \<Rightarrow> []
      | Adoption n fs insights \<Rightarrow>
          concat (map (\<lambda>(feature, data).
                         [nl @ feature @ '':'',
                          ''  Total Uses: '' @ str_of_nat (total_uses data),
                          ''  Unique Users: '' @ str_of_nat (unique_users data),
                          ''  Adoption Rate: '' @ format_percent (adoption_rate data),
                          ''  Status: '' @ status data]) fs) @
          [nl @ ''Key Insights:''] @
          map (\<lambda>insight. ''  '' @ bullet @ '' '' @ insight) insights)"

definition journey_lines :: "journey_result \<Rightarrow> string list" where
  "journey_lines journeys =
     [nl @ ''Total Unique Patterns: '' @ str_of_nat (total_patterns journeys),
      nl @ ''Most Common Patterns:''] @
     map (\<lambda>(pattern, count). ''  '' @ str_of_nat count @ ''x: '' @ pattern)
         (take 5 (most_common_patterns journeys))"

definition error_lines :: "error_result \<Rightarrow> string list" where
  "error_lines errs =
     [nl @ ''Total Error Types: '' @ str_of_nat (total_error_types errs)] @
     concat (map (\<lambda>(error_type, data).
                    [nl @ error_type @ '':'',
                     ''  Occurrences: '' @ str_of_nat (occurrences data),
                     ''  Affected Users: '' @ str_of_nat (affected_users data),
                     ''  Severity: '' @ severity data]) (errors errs))"

definition time_lines :: "time_result \<Rightarrow> string list" where
  "time_lines tp = map (\<lambda>insight. ''  '' @ bullet @ '' '' @ insight) (tp_insights tp)"

text \<open>
  \<open>generate_comprehensive_report\<close> calls the four analyses in turn on the engine; an exception
  of one of them ends the call.
\<close>

definition generate_comprehensive_report ::
  "(rat \<Rightarrow> string) \<Rightarrow> datetime \<Rightarrow> analyzer_state \<Rightarrow> string outcome" where
  "generate_comprehensive_report format_percent now s =
     (let header =
            [rule80, ''USAGE PATTERN ANALYSIS REPORT'', rule80,
             nl @ ''Generated: '' @ strftime_ymd_hms now,
             ''Total Events Tracked: '' @ str_of_nat (length (events s)),
             ''Unique Users: '' @ str_of_nat (length (user_sessions s)) @ nl,
             nl @ rule80, ''FEATURE ADOPTION ANALYSIS'', rule80]
      in case analyze_feature_adoption s of
           (Inl e, s1) \<Rightarrow> (Inl e, s1)
         | (Inr adoption, s1) \<Rightarrow>
        (case analyze_user_journeys s1 of
           (Inl e, s2) \<Rightarrow> (Inl e, s2)
         | (Inr journeys, s2) \<Rightarrow>
        (case analyze_error_patterns s2 of
           (Inl e, s3) \<Rightarrow> (Inl e, s3)
         | (Inr errs, s3) \<Rightarrow>
        (case analyze_time_patterns s3 of
           (Inl e, s4) \<Rightarrow> (Inl e, s4)
         | (Inr tp, s4) \<Rightarrow>
             (Inr (join nl
                     (header @ adoption_lines format_percent adoption @
                      [nl @ rule80, ''USER JOURNEY PATTERNS'', rule80] @ journey_lines journeys @
                      [nl @ rule80, ''ERROR PATTERN ANALYSIS'', rule80] @ error_lines errs @
                      [nl @ rule80, ''TIME PATTERN ANALYSIS'', rule80] @ time_lines tp @
                      [nl @ rule80])), s4)))))"

section \<open>Logs\<close>

text \<open>
  A log is what a sequence of tracking calls leaves in a fresh engine. The analyses are studied
  on the states reached this way.
\<close>

datatype call =
  TrackEvent string string "metadata option" datetime
| TrackError string string "metadata option" datetime

fun apply_call :: "call \<Rightarrow> analyzer_state \<Rightarrow> analyzer_state" where
  "apply_call (TrackEvent event_type uid md now) s = snd (track_event event_type uid md now s)"
| "apply_call (TrackError error_type uid ctx now) s = snd (track_error error_type uid ctx now s)"

definition replay :: "call list \<Rightarrow> analyzer_state" where
  "replay calls = fold apply_call calls init"

section \<open>Notions of the log used in the statements\<close>

text \<open>A clock reading for the examples: Monday, 1 January 2024, 09:00.\<close>

definition example_clock :: datetime where
  "example_clock =
     \<lparr>year = 2024, month = 1, day = 1, hour = 9, minute = 0, second = 0, microsecond = 0\<rparr>"

text \<open>
  The users of the log, read off the events list: those with at least one event, and those
  with an event of the type \<open>feature_<name>\<close>.
\<close>

definition users_with_events :: "analyzer_state \<Rightarrow> string set" where
  "users_with_events s = user_id ` set (events s)"

definition users_triggering :: "analyzer_state \<Rightarrow> string \<Rightarrow> string set" where
  "users_triggering s feature =
     user_id ` set (filter (\<lambda>ev. etype ev = ''feature_'' @ feature) (events s))"

text \<open>
  The specification's \<open>total_users\<close> counts the user ids seen anywhere in the log, error
  occurrences included.
\<close>

definition users_anywhere :: "analyzer_state \<Rightarrow> string set" where
  "users_anywhere s =
     users_with_events s \<union> set (concat (map (\<lambda>(error_type, occs). map err_user_id occs)
                                          (error_patterns s)))"

text \<open>
  The specification's time span of an error type: the latest minus the earliest timestamp, in
  fractional days. A timestamp is placed on the time line by its number of microseconds since
  the start of day 0 of the calendar.
\<close>

definition timestamp_us :: "datetime \<Rightarrow> nat" where
  "timestamp_us d = toordinal d * 86400000000 + day_seconds d * 1000000 + microsecond d"

definition span_in_days :: "error_occurrence list \<Rightarrow> rat" where
  "span_in_days occs =
     (of_nat (Max (set (map (timestamp_us \<circ> err_timestamp) occs))) -
      of_nat (Min (set (map (timestamp_us \<circ> err_timestamp) occs)))) / 86400000000"

definition same_calendar_day :: "datetime \<Rightarrow> datetime \<Rightarrow> bool" where
  "same_calendar_day a b = (year a = year b \<and> month a = month b \<and> day a = day b)"

text \<open>The place of the first occurrence of a bucket key in the sequence of keys of the log.\<close>

definition first_index :: "'a list \<Rightarrow> 'a \<Rightarrow> nat" where
  "first_index xs x = length (takeWhile (\<lambda>y. y \<noteq> x) xs)"

definition event_hours :: "analyzer_state \<Rightarrow> nat list" where
  "event_hours s = map (\<lambda>ev. hour (timestamp ev)) (events s)"

definition event_days :: "analyzer_state \<Rightarrow> string list" where
  "event_days s = map (\<lambda>ev. strftime_A (timestamp ev)) (events s)"

text \<open>Logs for the examples.\<close>

definition journey_log :: "call list" where
  "journey_log =
     [TrackEvent ''login'' ''u1'' None example_clock,
      TrackEvent ''logout'' ''u1'' None example_clock]"

definition error_only_user_log :: "call list" where
  "error_only_user_log =
     [TrackEvent ''feature_x'' ''u1'' None example_clock,
      TrackError ''timeout'' ''u2'' None example_clock]"

definition two_user_log :: "call list" where
  "two_user_log =
     [TrackEvent ''feature_x'' ''u1'' None example_clock,
      TrackEvent ''login'' ''u2'' None example_clock]"

definition split_prefix_log :: "call list" where
  "split_prefix_log =
     [TrackEvent ''feature_feafeature_ture_x'' ''u1'' None example_clock,
      TrackEvent ''feature_feature_x'' ''u1'' None example_clock,
      TrackEvent ''feature_feature_x'' ''u2'' None example_clock]"

text \<open>
  What the tracking calls maintain between the events list and the per-user sessions: the
  session keys are the users of the events, each once, and a user's session is the
  subsequence of that user's events.
\<close>

definition sessions_ok :: "analyzer_state \<Rightarrow> bool" where
  "sessions_ok s =
     (distinct (map fst (user_sessions s)) \<and>
      (\<forall>u. map_of (user_sessions s) u =
             (if u \<in> user_id ` set (events s)
              then Some (filter (\<lambda>ev. user_id ev = u) (events s)) else None)))"

text \<open>
  The keys of a sequence in the order of their first occurrences: the key order of a
  dictionary filled from the sequence.
\<close>

definition first_seen :: "'a list \<Rightarrow> 'a list" where
  "first_seen ks = rev (remdups (rev ks))"

text \<open>A log in which the hours 14 and 9 tie with two events each, hour 14 first.\<close>

definition tie_log :: "call list" where
  "tie_log =
     [TrackEvent ''login'' ''u1'' None (example_clock\<lparr>hour := 14\<rparr>),
      TrackEvent ''login'' ''u2'' None example_clock,
      TrackEvent ''logout'' ''u2'' None example_clock,
      TrackEvent ''logout'' ''u1'' None (example_clock\<lparr>hour := 14\<rparr>)]"

text \<open>Three occurrences of one error type on the same calendar day, and the log that records them.\<close>

definition same_day_occurrences :: "error_occurrence list" where
  "same_day_occurrences =
     [\<lparr>err_user_id = ''u1'', err_timestamp = example_clock, err_context = []\<rparr>,
      \<lparr>err_user_id = ''u2'', err_timestamp = example_clock\<lparr>hour := 17, minute := 30\<rparr>,
         err_context = []\<rparr>,
      \<lparr>err_user_id = ''u1'', err_timestamp = example_clock\<lparr>hour := 23\<rparr>, err_context = []\<rparr>]"

definition same_day_log :: "call list" where
  "same_day_log =
     [TrackError ''timeout'' ''u1'' None example_clock,
      TrackError ''timeout'' ''u2'' None (example_clock\<lparr>hour := 17, minute := 30\<rparr>),
      TrackError ''timeout'' ''u1'' None (example_clock\<lparr>hour := 23\<rparr>)]"

section \<open>Dictionary updates\<close>

lemma keys_dict_upd:
  "map fst (dict_upd f dflt k d) = (if k \<in> fst ` set d then map fst d else map fst d @ [k])"
  by (induction d) (auto split: if_splits)

lemma map_of_dict_upd:
  "map_of (dict_upd f dflt k d) =
     (map_of d)(k \<mapsto> f (case map_of d k of None \<Rightarrow> dflt | Some v \<Rightarrow> v))"
  by (induction d) (auto simp: fun_eq_iff)

lemma distinct_dict_upd:
  "distinct (map fst d) \<Longrightarrow> distinct (map fst (dict_upd f dflt k d))"
  by (auto simp: keys_dict_upd)

section \<open>The analyses leave the engine as it was\<close>

lemma snd_analyze_feature_adoption: "snd (analyze_feature_adoption s) = s"
  by (simp add: analyze_feature_adoption_def Let_def)

lemma snd_analyze_user_journeys: "snd (analyze_user_journeys s) = s"
  by (simp add: analyze_user_journeys_def Let_def split: sum.splits)

lemma snd_analyze_error_patterns: "snd (analyze_error_patterns s) = s"
  by (simp add: analyze_error_patterns_def Let_def)

lemma snd_analyze_time_patterns: "snd (analyze_time_patterns s) = s"
  by (simp add: analyze_time_patterns_def Let_def)

lemma snd_generate_comprehensive_report:
  "snd (generate_comprehensive_report format_percent now s) = s"
proof -
  obtain r1 where a1: "analyze_feature_adoption s = (r1, s)"
    using snd_analyze_feature_adoption [of s] by (cases "analyze_feature_adoption s") simp
  obtain r2 where a2: "analyze_user_journeys s = (r2, s)"
    using snd_analyze_user_journeys [of s] by (cases "analyze_user_journeys s") simp
  obtain r3 where a3: "analyze_error_patterns s = (r3, s)"
    using snd_analyze_error_patterns [of s] by (cases "analyze_error_patterns s") simp
  obtain r4 where a4: "analyze_time_patterns s = (r4, s)"
    using snd_analyze_time_patterns [of s] by (cases "analyze_time_patterns s") simp
  show ?thesis
    unfolding generate_comprehensive_report_def Let_def a1
    by (simp add: a2 a3 a4 split: sum.splits)
qed

text \<open>
  C10. Each of the four analyses and the report returns the engine state it was given: the
  events list, the per-user sessions, the feature counters and the error store are the same
  after the call as before it, also when the call ends with an exception.
\<close>

theorem analyses_are_read_only:
  "snd (analyze_feature_adoption s) = s \<and>
   snd (analyze_user_journeys s) = s \<and>
   snd (analyze_error_patterns s) = s \<and>
   snd (analyze_time_patterns s) = s \<and>
   snd (generate_comprehensive_report format_percent now s) = s"
  by (simp add: snd_analyze_feature_adoption snd_analyze_user_journeys
        snd_analyze_error_patterns snd_analyze_time_patterns snd_generate_comprehensive_report)

text \<open>
  C8. An analysis called a second time on the engine the first call left behind, with no
  tracking call in between, returns the same value (or raises the same exception) as the
  first call.
\<close>

theorem analyses_are_idempotent:
  "fst (analyze_feature_adoption (snd (analyze_feature_adoption s))) =
     fst (analyze_feature_adoption s) \<and>
   fst (analyze_user_journeys (snd (analyze_user_journeys s))) =
     fst (analyze_user_journeys s) \<and>
   fst (analyze_error_patterns (snd (analyze_error_patterns s))) =
     fst (analyze_error_patterns s) \<and>
   fst (analyze_time_patterns (snd (analyze_time_patterns s))) =
     fst (analyze_time_patterns s)"
  by (simp add: snd_analyze_feature_adoption snd_analyze_user_journeys
        snd_analyze_error_patterns snd_analyze_time_patterns)

section \<open>The empty log\<close>

text \<open>
  C7. On the engine as \<open>__init__\<close> leaves it, with no event and no error tracked, none of the
  four analyses raises: the adoption analysis returns its "No usage data available" result,
  the journey and error analyses return their results with zero counts and empty lists, and the
  time analysis returns empty distributions with the default peaks \<open>0\<close> and \<open>""\<close>.
\<close>

theorem empty_log_gives_no_data_results:
  "analyze_feature_adoption init = (Inr (NoUsageData ''No usage data available''), init) \<and>
   analyze_user_journeys init =
     (Inr \<lparr>total_patterns = 0, most_common_patterns = [], uj_insights = []\<rparr>, init) \<and>
   analyze_error_patterns init =
     (Inr \<lparr>total_error_types = 0, errors = [], ep_insights = []\<rparr>, init) \<and>
   analyze_time_patterns init =
     (Inr \<lparr>hourly_distribution = [], daily_distribution = [], peak_hour = 0, peak_day = '''',
           tp_insights = [''Peak usage hour: 0:00 with 0 events'',
                          ''Peak usage day:  with 0 events'',
                          ''Consider scheduling maintenance during low-activity periods'']\<rparr>,
      init)"
proof -
  have a: "analyze_feature_adoption init = (Inr (NoUsageData ''No usage data available''), init)"
    by (simp add: analyze_feature_adoption_def init_def)
  have b: "analyze_user_journeys init =
     (Inr \<lparr>total_patterns = 0, most_common_patterns = [], uj_insights = []\<rparr>, init)"
    by (simp add: analyze_user_journeys_def init_def journey_patterns_def sorted_desc_def)
  have c: "analyze_error_patterns init =
     (Inr \<lparr>total_error_types = 0, errors = [], ep_insights = []\<rparr>, init)"
    by (simp add: analyze_error_patterns_def init_def generate_error_insights_def)
  have d: "analyze_time_patterns init =
     (Inr \<lparr>hourly_distribution = [], daily_distribution = [], peak_hour = 0, peak_day = '''',
           tp_insights = [''Peak usage hour: 0:00 with 0 events'',
                          ''Peak usage day:  with 0 events'',
                          ''Consider scheduling maintenance during low-activity periods'']\<rparr>,
      init)"
    by (simp add: analyze_time_patterns_def init_def hourly_activity_def daily_activity_def
          peak_of_def digit_char_def)
  from a b c d show ?thesis by simp
qed

section \<open>Ingestion\<close>

text \<open>
  C3. The claim that a call with an empty user id raises and appends nothing fails:
  \<open>track_event("login", "")\<close> on a fresh engine returns normally and appends the event.
\<close>

theorem track_event_empty_user_id_counterexample:
  "fst (track_event ''login'' '''' None example_clock init) = Inr () \<and>
   events (snd (track_event ''login'' '''' None example_clock init)) =
     [\<lparr>etype = ''login'', user_id = '''', timestamp = example_clock, metadata = []\<rparr>]"
  by (simp add: track_event_def Let_def init_def startswith_def or_empty_def)

text \<open>
  C3, amended. The tracking calls validate nothing and never fail, for every user id, the
  empty string included. \<open>track_event\<close> returns normally, appends exactly the new event to the
  events list and to the session of that user (a new user gets a session holding that event, at
  the end of the sessions), and leaves every other session and the error store as they were.
  \<open>track_error\<close> returns normally, appends exactly the new occurrence to the list of that error
  type (a new error type gets a list holding that occurrence, at the end of the store), and
  leaves every other error type, the events list, the sessions and the feature counters as they
  were. No call fails, so none leaves a partial append.
\<close>

theorem tracking_never_fails:
  "fst (track_event event_type uid md now s) = Inr () \<and>
   events (snd (track_event event_type uid md now s)) =
     events s @ [\<lparr>etype = event_type, user_id = uid, timestamp = now,
                  metadata = or_empty md\<rparr>] \<and>
   map_of (user_sessions (snd (track_event event_type uid md now s))) =
     (map_of (user_sessions s))
       (uid \<mapsto> (case map_of (user_sessions s) uid of None \<Rightarrow> [] | Some evs \<Rightarrow> evs) @
                [\<lparr>etype = event_type, user_id = uid, timestamp = now,
                  metadata = or_empty md\<rparr>]) \<and>
   map fst (user_sessions (snd (track_event event_type uid md now s))) =
     (if uid \<in> fst ` set (user_sessions s) then map fst (user_sessions s)
      else map fst (user_sessions s) @ [uid]) \<and>
   error_patterns (snd (track_event event_type uid md now s)) = error_patterns s \<and>
   fst (track_error error_type uid ctx now s) = Inr () \<and>
   map_of (error_patterns (snd (track_error error_type uid ctx now s))) =
     (map_of (error_patterns s))
       (error_type \<mapsto>
          (case map_of (error_patterns s) error_type of None \<Rightarrow> [] | Some occs \<Rightarrow> occs) @
          [\<lparr>err_user_id = uid, err_timestamp = now, err_context = or_empty ctx\<rparr>]) \<and>
   map fst (error_patterns (snd (track_error error_type uid ctx now s))) =
     (if error_type \<in> fst ` set (error_patterns s) then map fst (error_patterns s)
      else map fst (error_patterns s) @ [error_type]) \<and>
   events (snd (track_error error_type uid ctx now s)) = events s \<and>
   user_sessions (snd (track_error error_type uid ctx now s)) = user_sessions s \<and>
   feature_usage (snd (track_error error_type uid ctx now s)) = feature_usage s"
proof -
  let ?ev = "\<lparr>etype = event_type, user_id = uid, timestamp = now, metadata = or_empty md\<rparr>"
  let ?occ = "\<lparr>err_user_id = uid, err_timestamp = now, err_context = or_empty ctx\<rparr>"
  have e1: "fst (track_event event_type uid md now s) = Inr ()"
    and e2: "events (snd (track_event event_type uid md now s)) = events s @ [?ev]"
    and e3: "user_sessions (snd (track_event event_type uid md now s)) =
               dict_append uid ?ev (user_sessions s)"
    and e4: "error_patterns (snd (track_event event_type uid md now s)) = error_patterns s"
    by (simp_all add: track_event_def Let_def)
  have r1: "fst (track_error error_type uid ctx now s) = Inr ()"
    and r2: "error_patterns (snd (track_error error_type uid ctx now s)) =
               dict_append error_type ?occ (error_patterns s)"
    and r3: "events (snd (track_error error_type uid ctx now s)) = events s"
    and r4: "user_sessions (snd (track_error error_type uid ctx now s)) = user_sessions s"
    and r5: "feature_usage (snd (track_error error_type uid ctx now s)) = feature_usage s"
    by (simp_all add: track_error_def Let_def)
  show ?thesis
    unfolding e1 e2 e3 e4 r1 r2 r3 r4 r5 dict_append_def map_of_dict_upd keys_dict_upd
    by simp
qed

text \<open>
  C4. The event type \<open>feature_a_feature_b\<close> should count under the key \<open>a_feature_b\<close>, the
  suffix after the prefix. The engine counts it under \<open>a_b\<close>: \<open>str.replace\<close> removes every
  occurrence of \<open>feature_\<close>, not only the leading one.
\<close>

theorem feature_counter_key_is_not_the_suffix:
  "feature_usage (snd (track_event ''feature_a_feature_b'' ''u1'' None example_clock init)) =
     [(''a_b'', 1)]"
  by (simp add: track_event_def Let_def init_def startswith_def dict_incr_def)

section \<open>Journey insights\<close>

lemma dict_upd_not_Nil: "dict_upd f dflt k d \<noteq> []"
  by (cases d) (auto split: if_splits)

lemma fold_dict_incr_not_Nil:
  "acc \<noteq> [] \<or> is \<noteq> [] \<Longrightarrow> fold (\<lambda>i acc. dict_incr (g i) acc) is acc \<noteq> []"
  by (induction "is" arbitrary: acc) (auto simp: dict_incr_def dict_upd_not_Nil)

lemma session_patterns_not_Nil:
  "acc \<noteq> [] \<or> 2 \<le> length evs \<Longrightarrow> session_patterns evs acc \<noteq> []"
  unfolding session_patterns_def by (rule fold_dict_incr_not_Nil) auto

lemma journey_fold_not_Nil:
  "acc \<noteq> [] \<or> (\<exists>(uid, evs) \<in> set sessions. 2 \<le> length evs) \<Longrightarrow>
   fold (\<lambda>(uid, evs) acc. if length evs < 2 then acc else session_patterns evs acc)
     sessions acc \<noteq> []"
proof (induction sessions arbitrary: acc)
  case Nil
  then show ?case by simp
next
  case (Cons p sessions)
  obtain uid evs where p: "p = (uid, evs)" by (cases p)
  show ?case
  proof (cases "length evs < 2")
    case True
    with Cons.prems p have "acc \<noteq> [] \<or> (\<exists>(uid, evs) \<in> set sessions. 2 \<le> length evs)"
      by auto
    from Cons.IH [OF this] True p show ?thesis by simp
  next
    case False
    then have "session_patterns evs acc \<noteq> []"
      by (intro session_patterns_not_Nil) simp
    then have "fold (\<lambda>(uid, evs) acc. if length evs < 2 then acc else session_patterns evs acc)
                 sessions (session_patterns evs acc) \<noteq> []"
      by (intro Cons.IH) simp
    with False p show ?thesis by simp
  qed
qed

lemma insort_desc_not_Nil: "insort_desc x ys \<noteq> []"
  by (cases ys) auto

lemma sorted_desc_not_Nil: "xs \<noteq> [] \<Longrightarrow> sorted_desc xs \<noteq> []"
  by (cases xs) (auto simp: sorted_desc_def insort_desc_not_Nil)

lemma generate_journey_insights_raises:
  "ps \<noteq> [] \<Longrightarrow>
   generate_journey_insights ps insights = Inl (KeyError ''pattern_frequency_threshold'')"
  by (cases ps) (auto simp: subscript_def SUGGESTION_THRESHOLDS_def)

text \<open>
  C1. The journey analysis should return insights whenever a journey pattern exists. The table
  \<open>SUGGESTION_THRESHOLDS\<close> has no key \<open>pattern_frequency_threshold\<close>, so as soon as some user
  has two events the call ends with a \<open>KeyError\<close> and returns no result at all.
\<close>

theorem journeys_raise_KeyError:
  assumes "(uid, evs) \<in> set (user_sessions s)" and "2 \<le> length evs"
  shows "analyze_user_journeys s = (Inl (KeyError ''pattern_frequency_threshold''), s)"
proof -
  have "journey_patterns (user_sessions s) \<noteq> []"
    unfolding journey_patterns_def using assms by (intro journey_fold_not_Nil) auto
  then have "take 10 (sorted_desc (journey_patterns (user_sessions s))) \<noteq> []"
    by (simp add: sorted_desc_not_Nil)
  then show ?thesis
    by (simp add: analyze_user_journeys_def Let_def generate_journey_insights_raises)
qed

theorem journeys_raise_KeyError_witness:
  "(''u1'', [\<lparr>etype = ''login'', user_id = ''u1'', timestamp = example_clock, metadata = []\<rparr>,
            \<lparr>etype = ''logout'', user_id = ''u1'', timestamp = example_clock, metadata = []\<rparr>])
     \<in> set (user_sessions (replay journey_log)) \<and>
   analyze_user_journeys (replay journey_log) =
     (Inl (KeyError ''pattern_frequency_threshold''), replay journey_log)"
proof -
  have h: "(''u1'',
            [\<lparr>etype = ''login'', user_id = ''u1'', timestamp = example_clock, metadata = []\<rparr>,
             \<lparr>etype = ''logout'', user_id = ''u1'', timestamp = example_clock, metadata = []\<rparr>])
     \<in> set (user_sessions (replay journey_log))"
    by (simp add: journey_log_def replay_def track_event_def Let_def init_def startswith_def
          dict_append_def or_empty_def)
  from h journeys_raise_KeyError [OF h] show ?thesis by simp
qed

section \<open>Adoption rates\<close>

lemma replay_snoc: "replay (calls @ [c]) = apply_call c (replay calls)"
  by (simp add: replay_def)

lemma sessions_ok_init: "sessions_ok init"
  by (simp add: sessions_ok_def init_def)

lemma sessions_ok_track_event:
  assumes "sessions_ok s"
  shows "sessions_ok (snd (track_event event_type uid md now s))"
proof -
  define ev where "ev = \<lparr>etype = event_type, user_id = uid, timestamp = now, metadata = or_empty md\<rparr>"
  have ev: "events (snd (track_event event_type uid md now s)) = events s @ [ev]"
    by (simp add: track_event_def Let_def ev_def)
  have us: "user_sessions (snd (track_event event_type uid md now s)) =
              dict_append uid ev (user_sessions s)"
    by (simp add: track_event_def Let_def ev_def)
  have uid: "user_id ev = uid" by (simp add: ev_def)
  from assms have d: "distinct (map fst (user_sessions s))"
    and m: "\<And>u. map_of (user_sessions s) u =
             (if u \<in> user_id ` set (events s)
              then Some (filter (\<lambda>ev. user_id ev = u) (events s)) else None)"
    by (simp_all add: sessions_ok_def)
  have "distinct (map fst (dict_append uid ev (user_sessions s)))"
    unfolding dict_append_def using d by (rule distinct_dict_upd)
  moreover have "map_of (dict_append uid ev (user_sessions s)) u =
             (if u \<in> user_id ` set (events s @ [ev])
              then Some (filter (\<lambda>e. user_id e = u) (events s @ [ev])) else None)" for u
  proof (cases "u = uid")
    case True
    have "uid \<notin> user_id ` set (events s) \<Longrightarrow> filter (\<lambda>e. user_id e = uid) (events s) = []"
      by (auto simp: filter_empty_conv)
    with True show ?thesis
      by (simp add: dict_append_def map_of_dict_upd m uid)
  next
    case False
    then show ?thesis
      by (simp add: dict_append_def map_of_dict_upd m uid)
  qed
  ultimately show ?thesis
    unfolding sessions_ok_def ev us by blast
qed

lemma sessions_ok_track_error:
  "sessions_ok s \<Longrightarrow> sessions_ok (snd (track_error error_type uid ctx now s))"
  by (simp add: sessions_ok_def track_error_def Let_def)

lemma sessions_ok_replay: "sessions_ok (replay calls)"
proof (induction calls rule: rev_induct)
  case Nil
  then show ?case by (simp add: replay_def sessions_ok_init)
next
  case (snoc c calls)
  then show ?case
    by (cases c) (simp_all add: replay_snoc sessions_ok_track_event sessions_ok_track_error)
qed

lemma fold_insert_if:
  "fold (\<lambda>ev acc. if P ev then insert u acc else acc) evs acc =
     (if \<exists>ev \<in> set evs. P ev then insert u acc else acc)"
  by (induction evs arbitrary: acc) auto

lemma users_using_feature_eq:
  "users_using_feature feature sessions =
     {u. \<exists>evs. (u, evs) \<in> set sessions \<and> (\<exists>ev \<in> set evs. etype ev = ''feature_'' @ feature)}"
proof -
  have "fold (\<lambda>(uid, evs) acc.
             fold (\<lambda>ev acc'. if etype ev = ''feature_'' @ feature then insert uid acc' else acc')
                  evs acc) sessions acc =
        acc \<union> {u. \<exists>evs. (u, evs) \<in> set sessions \<and>
                     (\<exists>ev \<in> set evs. etype ev = ''feature_'' @ feature)}" for acc
    by (induction sessions arbitrary: acc) (auto simp: fold_insert_if split: if_splits)
  then show ?thesis by (simp add: users_using_feature_def)
qed

lemma sessions_ok_mem:
  assumes "sessions_ok s"
  shows "(u, evs) \<in> set (user_sessions s) \<longleftrightarrow>
         u \<in> user_id ` set (events s) \<and> evs = filter (\<lambda>ev. user_id ev = u) (events s)"
proof -
  from assms have d: "distinct (map fst (user_sessions s))" by (simp add: sessions_ok_def)
  have "(u, evs) \<in> set (user_sessions s) \<longleftrightarrow> map_of (user_sessions s) u = Some evs"
    using d by simp
  also have "\<dots> \<longleftrightarrow> u \<in> user_id ` set (events s) \<and> evs = filter (\<lambda>ev. user_id ev = u) (events s)"
    using assms by (auto simp: sessions_ok_def)
  finally show ?thesis .
qed

lemma users_using_feature_log:
  assumes "sessions_ok s"
  shows "users_using_feature feature (user_sessions s) = users_triggering s feature"
  unfolding users_using_feature_eq users_triggering_def
proof (intro set_eqI iffI)
  fix u
  assume "u \<in> {u. \<exists>evs. (u, evs) \<in> set (user_sessions s) \<and>
                  (\<exists>ev \<in> set evs. etype ev = ''feature_'' @ feature)}"
  then obtain ev where "ev \<in> set (events s)" "user_id ev = u" "etype ev = ''feature_'' @ feature"
    by (auto simp: sessions_ok_mem [OF assms])
  then show "u \<in> user_id ` set (filter (\<lambda>ev. etype ev = ''feature_'' @ feature) (events s))"
    by force
next
  fix u
  assume "u \<in> user_id ` set (filter (\<lambda>ev. etype ev = ''feature_'' @ feature) (events s))"
  then obtain ev where ev: "ev \<in> set (events s)" "user_id ev = u" "etype ev = ''feature_'' @ feature"
    by auto
  then have "(u, filter (\<lambda>e. user_id e = u) (events s)) \<in> set (user_sessions s)"
    by (auto simp: sessions_ok_mem [OF assms])
  moreover have "ev \<in> set (filter (\<lambda>e. user_id e = u) (events s))"
    using ev by simp
  ultimately show "u \<in> {u. \<exists>evs. (u, evs) \<in> set (user_sessions s) \<and>
                  (\<exists>ev \<in> set evs. etype ev = ''feature_'' @ feature)}"
    using ev(3) by blast
qed

lemma length_user_sessions:
  assumes "sessions_ok s"
  shows "length (user_sessions s) = card (users_with_events s)"
proof -
  from assms have d: "distinct (map fst (user_sessions s))" by (simp add: sessions_ok_def)
  have "fst ` set (user_sessions s) = user_id ` set (events s)"
  proof -
    have "fst ` set (user_sessions s) = dom (map_of (user_sessions s))"
      by (simp add: dom_map_of_conv_image_fst)
    also have "\<dots> = user_id ` set (events s)"
      using assms by (auto simp: sessions_ok_def dom_def split: if_splits)
    finally show ?thesis .
  qed
  then have "card (users_with_events s) = card (set (map fst (user_sessions s)))"
    by (simp add: users_with_events_def)
  also have "\<dots> = length (map fst (user_sessions s))"
    using d by (rule distinct_card)
  finally show ?thesis by simp
qed

lemma dict_upd_mem:
  "(k', v') \<in> set (dict_upd f dflt k d) \<Longrightarrow> (k', v') \<in> set d \<or> (k' = k \<and> (\<exists>v. v' = f v))"
  by (induction d) (auto split: if_splits)

lemma fold_dict_set_mem:
  "(k, v) \<in> set (fold (\<lambda>(f, c) acc. dict_set f (g f c) acc) xs acc) \<Longrightarrow>
   (k, v) \<in> set acc \<or> (\<exists>c. v = g k c)"
proof (induction xs arbitrary: acc)
  case Nil
  then show ?case by simp
next
  case (Cons x xs)
  obtain f c where x: "x = (f, c)" by (cases x)
  from Cons.prems x have "(k, v) \<in> set (dict_set f (g f c) acc) \<or> (\<exists>c. v = g k c)"
    using Cons.IH by simp
  then show ?case
    using dict_upd_mem [of k v "\<lambda>_. g f c" "g f c" f acc] by (auto simp: dict_set_def)
qed

text \<open>
  C2. The claim that \<open>total_users\<close> counts the users seen anywhere in the log, those known
  from error occurrences only included, fails: with one user triggering \<open>feature_x\<close> and a
  second user known from an error only, the reported rate is \<open>1\<close>, while one triggering user
  out of the two users of the log is \<open>1/2\<close>.
\<close>

theorem adoption_rate_ignores_error_only_users_counterexample:
  "fst (analyze_feature_adoption (replay error_only_user_log)) =
     Inr (Adoption 1
            [(''x'', \<lparr>total_uses = 1, unique_users = 1, adoption_rate = 1,
                      status = ''high_adoption''\<rparr>)] []) \<and>
   of_nat (card (users_triggering (replay error_only_user_log) ''x'')) /
   of_nat (card (users_anywhere (replay error_only_user_log))) = (1 / 2 :: rat)"
  by (simp add: error_only_user_log_def replay_def track_event_def track_error_def Let_def
        init_def startswith_def dict_append_def analyze_feature_adoption_def dict_incr_def
        dict_set_def feature_entry_def users_using_feature_def get_adoption_status_def
        generate_adoption_insights_def or_empty_def users_triggering_def users_anywhere_def
        users_with_events_def)

lemma adoption_entry_of_log:
  assumes "fst (analyze_feature_adoption (replay calls)) = Inr (Adoption n fs insights)"
    and "(feature, data) \<in> set fs"
  shows "adoption_rate data =
           of_nat (card (users_triggering (replay calls) feature)) /
           of_nat (card (users_with_events (replay calls))) \<and>
         unique_users data = card (users_triggering (replay calls) feature)"
proof -
  let ?s = "replay calls"
  let ?entry = "feature_entry (length (user_sessions ?s)) (user_sessions ?s)"
  have ok: "sessions_ok ?s" by (rule sessions_ok_replay)
  from assms(1) have fs: "fs = fold (\<lambda>(feature, count) acc.
                          dict_set feature (?entry feature count) acc) (feature_usage ?s) []"
    by (simp add: analyze_feature_adoption_def Let_def split: if_splits)
  from assms(2) obtain c where "data = ?entry feature c"
    unfolding fs using fold_dict_set_mem [of feature data ?entry "feature_usage ?s" "[]"]
    by auto
  then show ?thesis
    by (simp add: feature_entry_def Let_def users_using_feature_log [OF ok]
          length_user_sessions [OF ok])
qed

text \<open>The rate lies between 0 and 1 on every log: the triggering users are users with events.\<close>

lemma adoption_rate_in_unit_interval:
  assumes "fst (analyze_feature_adoption (replay calls)) = Inr (Adoption n fs insights)"
    and "(feature, data) \<in> set fs"
  shows "0 \<le> adoption_rate data \<and> adoption_rate data \<le> 1"
proof -
  let ?a = "card (users_triggering (replay calls) feature)"
  let ?b = "card (users_with_events (replay calls))"
  have "users_triggering (replay calls) feature \<subseteq> users_with_events (replay calls)"
    by (auto simp: users_triggering_def users_with_events_def)
  moreover have "finite (users_with_events (replay calls))"
    by (simp add: users_with_events_def)
  ultimately have le: "?a \<le> ?b" by (rule card_mono [rotated])
  have rate: "adoption_rate data = of_nat ?a / of_nat ?b"
    using adoption_entry_of_log [OF assms] by simp
  show ?thesis
  proof (cases "?b = 0")
    case True
    then show ?thesis by (simp add: rate)
  next
    case False
    then have "(0::rat) < of_nat ?b" by simp
    moreover have "(of_nat ?a :: rat) \<le> of_nat ?b" using le by simp
    ultimately show ?thesis by (simp add: rate divide_le_eq_1)
  qed
qed

text \<open>An event whose type does not start with \<open>feature_\<close> leaves the feature counters alone.\<close>

lemma other_events_keep_feature_usage:
  "\<not> startswith event_type ''feature_'' \<Longrightarrow>
   feature_usage (snd (track_event event_type uid md now s)) = feature_usage s"
  by (simp add: track_event_def Let_def)

text \<open>
  C2, amended. On every log, for every feature of the adoption result, the reported
  \<open>adoption_rate\<close> is the number of distinct users with an event of the type
  \<open>feature_<name>\<close>, divided by the number of distinct users with at least one tracked event.
  Users known from error occurrences only are not counted.
\<close>

theorem adoption_rate_over_users_with_events:
  assumes "fst (analyze_feature_adoption (replay calls)) = Inr (Adoption n fs insights)"
    and "(feature, data) \<in> set fs"
  shows "adoption_rate data =
           of_nat (card (users_triggering (replay calls) feature)) /
           of_nat (card (users_with_events (replay calls)))"
  using adoption_entry_of_log [OF assms] by (rule conjunct1)

theorem adoption_rate_over_users_with_events_witness:
  "fst (analyze_feature_adoption (replay two_user_log)) =
     Inr (Adoption 1
            [(''x'', \<lparr>total_uses = 1, unique_users = 1, adoption_rate = 1 / 2,
                      status = ''moderate_adoption''\<rparr>)] []) \<and>
   (''x'', \<lparr>total_uses = 1, unique_users = 1, adoption_rate = 1 / 2,
            status = ''moderate_adoption''\<rparr>) \<in>
     set [(''x'', \<lparr>total_uses = 1, unique_users = 1, adoption_rate = 1 / 2,
                   status = ''moderate_adoption''\<rparr>)] \<and>
   (1 / 2 :: rat) =
     of_nat (card (users_triggering (replay two_user_log) ''x'')) /
     of_nat (card (users_with_events (replay two_user_log)))"
proof -
  have h: "fst (analyze_feature_adoption (replay two_user_log)) =
     Inr (Adoption 1
            [(''x'', \<lparr>total_uses = 1, unique_users = 1, adoption_rate = 1 / 2,
                      status = ''moderate_adoption''\<rparr>)] [])"
    by (simp add: two_user_log_def replay_def track_event_def Let_def
        init_def startswith_def dict_append_def analyze_feature_adoption_def dict_incr_def
        dict_set_def feature_entry_def users_using_feature_def get_adoption_status_def
        generate_adoption_insights_def or_empty_def)
  have m: "(''x'', \<lparr>total_uses = 1, unique_users = 1, adoption_rate = 1 / 2,
            status = ''moderate_adoption''\<rparr>) \<in>
     set [(''x'', \<lparr>total_uses = 1, unique_users = 1, adoption_rate = 1 / 2,
                   status = ''moderate_adoption''\<rparr>)]"
    by simp
  from adoption_rate_over_users_with_events [OF h m] h m show ?thesis by simp
qed

text \<open>
  C6. A feature's \<open>unique_users\<close> should never exceed its \<open>total_uses\<close>. The counter key is
  built with \<open>str.replace\<close>, the users are collected by comparing with \<open>feature_<key>\<close>, and
  the two disagree on a type in which \<open>feature_\<close> occurs again: the feature \<open>feature_x\<close> is
  reported with one use and two unique users.
\<close>

theorem unique_users_exceed_total_uses:
  "fst (analyze_feature_adoption (replay split_prefix_log)) =
     Inr (Adoption 2
            [(''feature_x'', \<lparr>total_uses = 1, unique_users = 2, adoption_rate = 1,
                              status = ''high_adoption''\<rparr>),
             (''x'', \<lparr>total_uses = 2, unique_users = 0, adoption_rate = 0,
                      status = ''low_adoption''\<rparr>)]
            [''Low adoption detected for: x. Consider improving discoverability or user education.''])"
  by (simp add: split_prefix_log_def replay_def track_event_def Let_def init_def
        startswith_def dict_append_def analyze_feature_adoption_def dict_incr_def dict_set_def
        feature_entry_def users_using_feature_def get_adoption_status_def
        generate_adoption_insights_def or_empty_def)

section \<open>Peak buckets\<close>

lemma first_seen_Nil: "first_seen [] = []"
  by (simp add: first_seen_def)

lemma first_seen_snoc:
  "first_seen (ks @ [k]) = (if k \<in> set ks then first_seen ks else first_seen ks @ [k])"
  by (simp add: first_seen_def)

lemma set_first_seen: "set (first_seen ks) = set ks"
  by (simp add: first_seen_def)

lemma distinct_first_seen: "distinct (first_seen ks)"
  by (simp add: first_seen_def)

lemma dict_incr_counted:
  "distinct L \<Longrightarrow>
   dict_incr k (map (\<lambda>x. (x, c x)) L) =
     (if k \<in> set L then map (\<lambda>x. (x, if x = k then Suc (c x) else c x)) L
      else map (\<lambda>x. (x, c x)) L @ [(k, Suc 0)])"
  by (induction L) (auto simp: dict_incr_def)

lemma fold_dict_incr_counts:
  "fold dict_incr ks [] = map (\<lambda>k. (k, count_list ks k)) (first_seen ks)"
proof (induction ks rule: rev_induct)
  case Nil
  then show ?case by (simp add: first_seen_Nil)
next
  case (snoc k ks)
  have "fold dict_incr (ks @ [k]) [] =
          dict_incr k (map (\<lambda>x. (x, count_list ks x)) (first_seen ks))"
    by (simp add: snoc.IH)
  also have "\<dots> = map (\<lambda>x. (x, count_list (ks @ [k]) x)) (first_seen (ks @ [k]))"
    by (auto simp: dict_incr_counted distinct_first_seen set_first_seen first_seen_snoc)
  finally show ?case .
qed

lemma max_by_count_first:
  "(max_by_count best xs = best \<and> (\<forall>x \<in> set xs. snd x \<le> snd best)) \<or>
   (\<exists>pre post. xs = pre @ max_by_count best xs # post \<and>
      snd best < snd (max_by_count best xs) \<and>
      (\<forall>x \<in> set pre. snd x < snd (max_by_count best xs)) \<and>
      (\<forall>x \<in> set post. snd x \<le> snd (max_by_count best xs)))"
proof (induction xs arbitrary: best)
  case Nil
  then show ?case by simp
next
  case (Cons x xs)
  let ?b = "if snd best < snd x then x else best"
  let ?r = "max_by_count ?b xs"
  have r: "max_by_count best (x # xs) = ?r" by simp
  from Cons.IH [of ?b] consider
    (stay) "?r = ?b" "\<forall>y \<in> set xs. snd y \<le> snd ?b"
  | (move) pre post where "xs = pre @ ?r # post" "snd ?b < snd ?r"
      "\<forall>y \<in> set pre. snd y < snd ?r" "\<forall>y \<in> set post. snd y \<le> snd ?r"
    by blast
  then show ?case
  proof cases
    case stay
    show ?thesis
    proof (cases "snd best < snd x")
      case True
      with stay have "x # xs = [] @ ?r # xs" "snd best < snd ?r" "\<forall>y \<in> set xs. snd y \<le> snd ?r"
        by simp_all
      then show ?thesis unfolding r by (metis empty_iff list.set(1))
    next
      case False
      with stay show ?thesis unfolding r by auto
    qed
  next
    case move
    have "x # xs = (x # pre) @ ?r # post" using move(1) by simp
    moreover have "snd best < snd ?r" using move(2) by (auto split: if_splits)
    moreover have "\<forall>y \<in> set (x # pre). snd y < snd ?r"
      using move(2,3) by (auto split: if_splits)
    ultimately show ?thesis unfolding r using move(4) by blast
  qed
qed

lemma peak_of_first:
  assumes "M \<noteq> []"
  shows "\<exists>pre post. M = pre @ peak_of dflt M # post \<and>
      (\<forall>x \<in> set pre. snd x < snd (peak_of dflt M)) \<and>
      (\<forall>x \<in> set post. snd x \<le> snd (peak_of dflt M))"
proof -
  from assms obtain m ms where M: "M = m # ms" by (cases M) auto
  have p: "peak_of dflt M = max_by_count m ms" by (simp add: peak_of_def M)
  from max_by_count_first [of m ms] show ?thesis
  proof
    assume "max_by_count m ms = m \<and> (\<forall>x \<in> set ms. snd x \<le> snd m)"
    then have "M = [] @ peak_of dflt M # ms" "\<forall>x \<in> set ms. snd x \<le> snd (peak_of dflt M)"
      unfolding p by (simp_all add: M)
    then show ?thesis by (metis empty_iff list.set(1))
  next
    assume "\<exists>pre post. ms = pre @ max_by_count m ms # post \<and>
      snd m < snd (max_by_count m ms) \<and>
      (\<forall>x \<in> set pre. snd x < snd (max_by_count m ms)) \<and>
      (\<forall>x \<in> set post. snd x \<le> snd (max_by_count m ms))"
    then obtain pre post where *: "ms = pre @ max_by_count m ms # post"
      "snd m < snd (max_by_count m ms)"
      "\<forall>x \<in> set pre. snd x < snd (max_by_count m ms)"
      "\<forall>x \<in> set post. snd x \<le> snd (max_by_count m ms)"
      by blast
    have "M = (m # pre) @ peak_of dflt M # post" unfolding p using *(1) by (simp add: M)
    moreover have "\<forall>x \<in> set (m # pre). snd x < snd (peak_of dflt M)"
      unfolding p using *(2,3) by simp
    ultimately show ?thesis using *(4) unfolding p by blast
  qed
qed

lemma first_index_append: "x \<in> set ks \<Longrightarrow> first_index (ks @ ys) x = first_index ks x"
  by (simp add: first_index_def)

lemma first_index_new: "x \<notin> set ks \<Longrightarrow> first_index (ks @ [x]) x = length ks"
proof -
  assume "x \<notin> set ks"
  then have "takeWhile (\<lambda>y. y \<noteq> x) (ks @ [x]) = ks @ takeWhile (\<lambda>y. y \<noteq> x) [x]"
    by (intro takeWhile_append2) auto
  then show ?thesis by (simp add: first_index_def)
qed

lemma first_index_less: "x \<in> set ks \<Longrightarrow> first_index ks x < length ks"
  unfolding first_index_def
  by (induction ks) auto

lemma first_seen_order:
  "first_seen ks = pre @ a # post \<Longrightarrow> b \<in> set post \<Longrightarrow> first_index ks a < first_index ks b"
proof (induction ks arbitrary: post rule: rev_induct)
  case Nil
  then show ?case by (simp add: first_seen_Nil)
next
  case (snoc k ks)
  show ?case
  proof (cases "k \<in> set ks")
    case True
    with snoc.prems have fs: "first_seen ks = pre @ a # post"
      by (simp add: first_seen_snoc)
    then have "a \<in> set ks" "b \<in> set ks"
      using snoc.prems(2) set_first_seen [of ks] by auto
    with snoc.IH [OF fs snoc.prems(2)] show ?thesis
      by (simp add: first_index_append)
  next
    case False
    with snoc.prems have fs: "first_seen ks @ [k] = pre @ a # post"
      by (simp add: first_seen_snoc)
    from snoc.prems(2) have "post \<noteq> []" by auto
    then obtain post' l where post: "post = post' @ [l]"
      by (metis rev_exhaust)
    from fs post have fs': "first_seen ks = pre @ a # post'" and l: "l = k"
      by simp_all
    then have a: "a \<in> set ks" using set_first_seen [of ks] by auto
    show ?thesis
    proof (cases "b \<in> set post'")
      case True
      then have "b \<in> set ks" using fs' set_first_seen [of ks] by auto
      with snoc.IH [OF fs' True] a show ?thesis by (simp add: first_index_append)
    next
      case False
      with snoc.prems(2) post l have "b = k" by auto
      with a \<open>k \<notin> set ks\<close> show ?thesis
        by (simp add: first_index_append first_index_new first_index_less)
    qed
  qed
qed

lemma peak_key_first_maximal:
  assumes "ks \<noteq> []"
    and p_def: "p = fst (peak_of dflt (fold dict_incr ks []))"
  shows "p \<in> set ks"
    and "count_list ks k \<le> count_list ks p"
    and "k \<noteq> p \<Longrightarrow> count_list ks k = count_list ks p \<Longrightarrow> first_index ks p < first_index ks k"
proof -
  let ?M = "map (\<lambda>k. (k, count_list ks k)) (first_seen ks)"
  have M: "fold dict_incr ks [] = ?M" by (rule fold_dict_incr_counts)
  have "set (first_seen ks) \<noteq> {}" using assms(1) by (simp add: set_first_seen)
  then have ne: "?M \<noteq> []" by auto
  from peak_of_first [OF ne, of dflt] obtain pre post where
    split: "?M = pre @ peak_of dflt ?M # post"
    and pre: "\<forall>x \<in> set pre. snd x < snd (peak_of dflt ?M)"
    and post: "\<forall>x \<in> set post. snd x \<le> snd (peak_of dflt ?M)"
    by blast
  have "peak_of dflt ?M \<in> set ?M" using split by (metis in_set_conv_decomp)
  then have r: "peak_of dflt ?M = (p, count_list ks p)" and pin: "p \<in> set ks"
    by (auto simp: p_def M set_first_seen)
  show "p \<in> set ks" by (rule pin)
  have keys: "first_seen ks = map fst pre @ p # map fst post"
  proof -
    have "first_seen ks = map fst ?M" by (simp add: comp_def)
    also have "\<dots> = map fst (pre @ peak_of dflt ?M # post)" using split by simp
    finally show ?thesis by (simp add: r)
  qed
  have vals: "snd x = count_list ks (fst x)" if "x \<in> set pre \<or> x \<in> set post" for x
  proof -
    from that have "x \<in> set ?M" using split by (metis Un_iff list.set_intros(2) set_append)
    then show ?thesis by auto
  qed
  have where_k: "k \<in> set (map fst pre) \<or> k = p \<or> k \<in> set (map fst post)" if "k \<in> set ks"
    using that keys set_first_seen [of ks] by (metis Un_iff set_ConsD set_append)
  show "count_list ks k \<le> count_list ks p"
  proof (cases "k \<in> set ks")
    case False
    then show ?thesis by simp
  next
    case True
    from where_k [OF True] show ?thesis
    proof (elim disjE)
      assume "k \<in> set (map fst pre)"
      then obtain x where "x \<in> set pre" "fst x = k" by auto
      with pre vals [of x] show ?thesis by (auto simp: r)
    next
      assume "k = p" then show ?thesis by simp
    next
      assume "k \<in> set (map fst post)"
      then obtain x where "x \<in> set post" "fst x = k" by auto
      with post vals [of x] show ?thesis by (auto simp: r)
    qed
  qed
  show "first_index ks p < first_index ks k"
    if neq: "k \<noteq> p" and tie: "count_list ks k = count_list ks p"
  proof -
    have "count_list ks p \<noteq> 0" using pin by (simp add: count_list_0_iff)
    with tie have kin: "k \<in> set ks" by (metis count_notin)
    have "k \<notin> set (map fst pre)"
    proof
      assume "k \<in> set (map fst pre)"
      then obtain x where "x \<in> set pre" "fst x = k" by auto
      with pre vals [of x] tie show False by (auto simp: r)
    qed
    with where_k [OF kin] neq have "k \<in> set (map fst post)" by blast
    with keys show ?thesis by (rule first_seen_order)
  qed
qed


lemma hourly_activity_keys:
  "hourly_activity evs = fold dict_incr (map (\<lambda>ev. hour (timestamp ev)) evs) []"
  by (simp add: hourly_activity_def fold_map comp_def)

lemma daily_activity_keys:
  "daily_activity evs = fold dict_incr (map (\<lambda>ev. strftime_A (timestamp ev)) evs) []"
  by (simp add: daily_activity_def fold_map comp_def)

text \<open>
  C9. On a log with at least one event, the reported \<open>peak_hour\<close> is the hour of some event,
  no hour has more events, and every other hour with as many events has its first event later
  in the events list than the first event of the peak hour. The same holds for \<open>peak_day\<close>
  and the weekday names.
\<close>

theorem peak_is_first_maximal_bucket:
  assumes "events s \<noteq> []" and "fst (analyze_time_patterns s) = Inr r"
  shows "peak_hour r \<in> set (event_hours s) \<and>
         (\<forall>h. count_list (event_hours s) h \<le> count_list (event_hours s) (peak_hour r)) \<and>
         (\<forall>h. h \<noteq> peak_hour r \<and>
               count_list (event_hours s) h = count_list (event_hours s) (peak_hour r) \<longrightarrow>
               first_index (event_hours s) (peak_hour r) < first_index (event_hours s) h) \<and>
         peak_day r \<in> set (event_days s) \<and>
         (\<forall>d. count_list (event_days s) d \<le> count_list (event_days s) (peak_day r)) \<and>
         (\<forall>d. d \<noteq> peak_day r \<and>
               count_list (event_days s) d = count_list (event_days s) (peak_day r) \<longrightarrow>
               first_index (event_days s) (peak_day r) < first_index (event_days s) d)"
proof -
  have hne: "event_hours s \<noteq> []" and dne: "event_days s \<noteq> []"
    using assms(1) by (simp_all add: event_hours_def event_days_def)
  from assms(2) have ph: "peak_hour r = fst (peak_of (0, 0) (fold dict_incr (event_hours s) []))"
    and pd: "peak_day r = fst (peak_of ('''', 0) (fold dict_incr (event_days s) []))"
    by (auto simp: analyze_time_patterns_def Let_def hourly_activity_keys daily_activity_keys
          event_hours_def event_days_def)
  from peak_key_first_maximal [OF hne ph] peak_key_first_maximal [OF dne pd]
  show ?thesis by blast
qed

theorem peak_is_first_maximal_bucket_witness:
  "events (replay tie_log) \<noteq> [] \<and>
   fst (analyze_time_patterns (replay tie_log)) =
     Inr \<lparr>hourly_distribution = [(14, 2), (9, 2)], daily_distribution = [(''Monday'', 4)],
           peak_hour = 14, peak_day = ''Monday'',
           tp_insights = [''Peak usage hour: 14:00 with 2 events'',
                          ''Peak usage day: Monday with 4 events'',
                          ''Consider scheduling maintenance during low-activity periods'']\<rparr> \<and>
   count_list (event_hours (replay tie_log)) 9 = count_list (event_hours (replay tie_log)) 14 \<and>
   first_index (event_hours (replay tie_log)) 14 < first_index (event_hours (replay tie_log)) 9"
proof -
  have ev: "events (replay tie_log) =
     [\<lparr>etype = ''login'', user_id = ''u1'', timestamp = example_clock\<lparr>hour := 14\<rparr>, metadata = []\<rparr>,
      \<lparr>etype = ''login'', user_id = ''u2'', timestamp = example_clock, metadata = []\<rparr>,
      \<lparr>etype = ''logout'', user_id = ''u2'', timestamp = example_clock, metadata = []\<rparr>,
      \<lparr>etype = ''logout'', user_id = ''u1'', timestamp = example_clock\<lparr>hour := 14\<rparr>, metadata = []\<rparr>]"
    by (simp add: tie_log_def replay_def track_event_def Let_def init_def startswith_def or_empty_def)
  have day: "strftime_A example_clock = ''Monday''" "strftime_A (example_clock\<lparr>hour := 14\<rparr>) = ''Monday''"
    by (simp_all add: strftime_A_def weekday_def toordinal_def days_before_year_def
          days_before_month_def DAYS_BEFORE_MONTH_def DAY_NAMES_def example_clock_def is_leap_def)
  have hr: "hour example_clock = 9" by (simp add: example_clock_def)
  have h1: "events (replay tie_log) \<noteq> []" by (simp add: ev)
  have n: "Suc (Suc 0) = 2" "Suc (Suc (Suc (Suc 0))) = 4"
    by simp_all
  have s14: "str_of_nat 14 = ''14''" "str_of_nat 2 = ''2''" "str_of_nat 4 = ''4''"
    by (simp_all add: digit_char_def)
  have h2: "fst (analyze_time_patterns (replay tie_log)) =
     Inr \<lparr>hourly_distribution = [(14, 2), (9, 2)], daily_distribution = [(''Monday'', 4)],
           peak_hour = 14, peak_day = ''Monday'',
           tp_insights = [''Peak usage hour: 14:00 with 2 events'',
                          ''Peak usage day: Monday with 4 events'',
                          ''Consider scheduling maintenance during low-activity periods'']\<rparr>"
    by (simp add: analyze_time_patterns_def Let_def ev hourly_activity_def daily_activity_def day hr
          dict_incr_def peak_of_def n s14 del: str_of_nat.simps)
  have c: "count_list (event_hours (replay tie_log)) 9 = count_list (event_hours (replay tie_log)) 14"
    by (simp add: event_hours_def ev hr)
  from peak_is_first_maximal_bucket [OF h1 h2] c h1 h2 show ?thesis by simp
qed


section \<open>Timestamps on the time line\<close>

lemma div_100_le_div_4: "n div 100 \<le> n div (4::nat)"
  by (rule div_le_mono2) simp_all

lemma mod_400_100: "(n::nat) mod 400 = 0 \<Longrightarrow> n mod 100 = 0"
proof -
  assume "n mod 400 = 0"
  then have "400 dvd n" by (simp add: mod_eq_0_iff_dvd)
  moreover have "(100::nat) dvd 400" by simp
  ultimately have "100 dvd n" by (rule dvd_trans [rotated])
  then show ?thesis by (simp add: mod_eq_0_iff_dvd)
qed

lemma mod_100_4: "(n::nat) mod 100 = 0 \<Longrightarrow> n mod 4 = 0"
proof -
  assume "n mod 100 = 0"
  then have "100 dvd n" by (simp add: mod_eq_0_iff_dvd)
  moreover have "(4::nat) dvd 100" by simp
  ultimately have "4 dvd n" by (rule dvd_trans [rotated])
  then show ?thesis by (simp add: mod_eq_0_iff_dvd)
qed

lemma step_arith:
  fixes a b c m :: nat
  assumes "b \<le> a"
  shows "(m + 365) + Suc a - Suc b + Suc c = m + a - b + c + 366"
    and "(m + 365) + Suc a - Suc b + c = m + a - b + c + 365"
    and "(m + 365) + Suc a - b + c = m + a - b + c + 366"
    and "(m + 365) + a - b + c = m + a - b + c + 365"
  using assms by linarith+


lemma div_Suc_yes: "Suc n mod k = 0 \<Longrightarrow> Suc n div k = Suc (n div k)"
  by (simp only: div_Suc if_True simp_thms)

lemma div_Suc_no: "Suc n mod k \<noteq> 0 \<Longrightarrow> Suc n div k = n div k"
  by (simp only: div_Suc if_False simp_thms)

lemma days_before_year_unfold:
  "days_before_year (Suc y) = y * 365 + y div 4 - y div 100 + y div 400"
  by (simp add: days_before_year_def)


lemma days_before_year_Suc:
  assumes "1 \<le> y"
  shows "days_before_year (Suc y) = days_before_year y + (if is_leap y then 366 else 365)"
proof -
  from assms obtain n where y: "y = Suc n" by (cases y) auto
  define a b c m where "a = n div 4" and "b = n div 100" and "c = n div 400" and "m = n * 365"
  have le: "b \<le> a" unfolding a_def b_def by (rule div_100_le_div_4)
  have m: "Suc n * 365 = m + 365" by (simp add: m_def)
  have rhs: "days_before_year (Suc n) = m + a - b + c"
    unfolding days_before_year_unfold a_def b_def c_def m_def ..
  have lhs: "days_before_year (Suc (Suc n)) =
               (m + 365) + Suc n div 4 - Suc n div 100 + Suc n div 400"
    unfolding days_before_year_unfold m ..
  consider (a) "Suc n mod 400 = 0" | (b) "Suc n mod 400 \<noteq> 0" "Suc n mod 100 = 0"
    | (c) "Suc n mod 100 \<noteq> 0" "Suc n mod 4 = 0" | (d) "Suc n mod 4 \<noteq> 0"
    by blast
  then show ?thesis
  proof cases
    case a
    then have h: "Suc n mod 100 = 0" by (rule mod_400_100)
    then have h4: "Suc n mod 4 = 0" by (rule mod_100_4)
    have leap: "is_leap (Suc n)" unfolding is_leap_def using a h4 by blast
    show ?thesis
      unfolding y lhs rhs div_Suc_yes [OF a] div_Suc_yes [OF h] div_Suc_yes [OF h4]
        a_def [symmetric] b_def [symmetric] c_def [symmetric]
      using leap step_arith(1) [OF le] by (simp only: if_True)
  next
    case b
    from b(2) have h4: "Suc n mod 4 = 0" by (rule mod_100_4)
    have leap: "\<not> is_leap (Suc n)" unfolding is_leap_def using b by blast
    show ?thesis
      unfolding y lhs rhs div_Suc_no [OF b(1)] div_Suc_yes [OF b(2)] div_Suc_yes [OF h4]
        a_def [symmetric] b_def [symmetric] c_def [symmetric]
      using leap step_arith(2) [OF le] by (simp only: if_False)
  next
    case c
    from c(1) have h: "Suc n mod 400 \<noteq> 0" by (rule contrapos_nn) (rule mod_400_100)
    have leap: "is_leap (Suc n)" unfolding is_leap_def using c by blast
    show ?thesis
      unfolding y lhs rhs div_Suc_no [OF h] div_Suc_no [OF c(1)] div_Suc_yes [OF c(2)]
        a_def [symmetric] b_def [symmetric] c_def [symmetric]
      using leap step_arith(3) [OF le] by (simp only: if_True)
  next
    case d
    from d have h: "Suc n mod 100 \<noteq> 0" by (rule contrapos_nn) (rule mod_100_4)
    then have h4: "Suc n mod 400 \<noteq> 0" by (rule contrapos_nn) (rule mod_400_100)
    have leap: "\<not> is_leap (Suc n)" unfolding is_leap_def using d by blast
    show ?thesis
      unfolding y lhs rhs div_Suc_no [OF h4] div_Suc_no [OF h] div_Suc_no [OF d]
        a_def [symmetric] b_def [symmetric] c_def [symmetric]
      using leap step_arith(4) [OF le] by (simp only: if_False)
  qed
qed


lemma days_before_year_mono:
  "1 \<le> y1 \<Longrightarrow> y1 \<le> y2 \<Longrightarrow> days_before_year y1 \<le> days_before_year y2"
proof (induction y2)
  case 0
  then show ?case by simp
next
  case (Suc y2)
  show ?case
  proof (cases "y1 = Suc y2")
    case True
    then show ?thesis by simp
  next
    case False
    with Suc.prems have le: "y1 \<le> y2" by simp
    with Suc.prems have "1 \<le> y2" by simp
    from days_before_year_Suc [OF this] have "days_before_year y2 \<le> days_before_year (Suc y2)"
      by (simp split: if_splits)
    with Suc.IH [OF Suc.prems(1) le] show ?thesis by simp
  qed
qed

lemma month_cases:
  "1 \<le> m \<Longrightarrow> m \<le> 12 \<Longrightarrow>
   m = 1 \<or> m = 2 \<or> m = 3 \<or> m = 4 \<or> m = 5 \<or> m = 6 \<or> m = 7 \<or> m = 8 \<or> m = 9 \<or>
   m = 10 \<or> m = 11 \<or> m = (12::nat)"
  by arith

lemma days_before_month_Suc:
  assumes "1 \<le> m" "m \<le> 11"
  shows "days_before_month y (Suc m) = days_before_month y m + days_in_month y m"
proof -
  from assms have "m = 1 \<or> m = 2 \<or> m = 3 \<or> m = 4 \<or> m = 5 \<or> m = 6 \<or> m = 7 \<or> m = 8 \<or>
      m = 9 \<or> m = 10 \<or> m = 11"
    by arith
  then show ?thesis
    by (elim disjE)
       (simp_all add: days_before_month_def days_in_month_def DAYS_BEFORE_MONTH_def
          DAYS_IN_MONTH_def)
qed

lemma days_before_month_mono:
  "1 \<le> m1 \<Longrightarrow> m1 \<le> m2 \<Longrightarrow> m2 \<le> 12 \<Longrightarrow>
   days_before_month y m1 \<le> days_before_month y m2"
proof (induction m2)
  case 0
  then show ?case by simp
next
  case (Suc m2)
  show ?case
  proof (cases "m1 = Suc m2")
    case True
    then show ?thesis by simp
  next
    case False
    with Suc.prems have le: "m1 \<le> m2" "m2 \<le> 11" "1 \<le> m2" by simp_all
    from days_before_month_Suc [OF le(3) le(2)] Suc.IH [OF Suc.prems(1) le(1)] le(2)
    show ?thesis by simp
  qed
qed

lemma days_in_year_bound:
  assumes "1 \<le> m" "m \<le> 12" "d \<le> days_in_month y m"
  shows "days_before_month y m + d \<le> (if is_leap y then 366 else 365)"
proof -
  from month_cases [OF assms(1,2)] assms(3) show ?thesis
    by (elim disjE)
       (simp_all add: days_before_month_def days_in_month_def DAYS_BEFORE_MONTH_def
          DAYS_IN_MONTH_def split: if_splits)
qed


lemma toordinal_less:
  assumes a: "valid_datetime a" and b: "valid_datetime b"
    and less: "year a < year b \<or>
               (year a = year b \<and> (month a < month b \<or> (month a = month b \<and> day a < day b)))"
  shows "toordinal a < toordinal b"
proof -
  from a have va: "1 \<le> year a" "1 \<le> month a" "month a \<le> 12" "day a \<le> days_in_month (year a) (month a)"
    by (simp_all add: valid_datetime_def)
  from b have vb: "1 \<le> month b" "month b \<le> 12" "1 \<le> day b"
    by (simp_all add: valid_datetime_def)
  from less consider (y) "year a < year b"
    | (m) "year a = year b" "month a < month b"
    | (d) "year a = year b" "month a = month b" "day a < day b"
    by blast
  then show ?thesis
  proof cases
    case y
    have "days_before_month (year a) (month a) + day a \<le> (if is_leap (year a) then 366 else 365)"
      using va(2-4) by (rule days_in_year_bound)
    then have "toordinal a \<le> days_before_year (Suc (year a))"
      unfolding toordinal_def days_before_year_Suc [OF va(1)] by simp
    also have "\<dots> \<le> days_before_year (year b)"
      using y by (intro days_before_year_mono) simp_all
    also have "\<dots> < toordinal b"
      unfolding toordinal_def using vb(3) by simp
    finally show ?thesis .
  next
    case m
    then have m11: "month a \<le> 11" using vb(2) by simp
    have "days_before_month (year a) (month a) + day a \<le> days_before_month (year a) (Suc (month a))"
      unfolding days_before_month_Suc [OF va(2) m11] using va(4) by simp
    also have "\<dots> \<le> days_before_month (year a) (month b)"
      using m(2) vb(2) by (intro days_before_month_mono) simp_all
    finally show ?thesis
      unfolding toordinal_def using m(1) vb(3) by simp
  next
    case d
    then show ?thesis unfolding toordinal_def by simp
  qed
qed



lemma scale_less:
  fixes A B ua ub :: nat
  assumes "ua < 1000000" and "A < B \<or> (A = B \<and> ua < ub)"
  shows "A * 1000000 + ua < B * 1000000 + ub"
proof -
  from assms(2) show ?thesis
  proof
    assume "A < B"
    then have "Suc A \<le> B" by simp
    then have "Suc A * 1000000 \<le> B * 1000000" by (rule mult_le_mono1)
    with assms(1) show ?thesis by simp
  next
    assume "A = B \<and> ua < ub"
    then show ?thesis by simp
  qed
qed

lemma seconds_less:
  fixes ha ma sa hb mb sb :: nat
  assumes "ma < 60" "sa < 60" "mb < 60" "sb < 60"
    and "ha < hb \<or> (ha = hb \<and> (ma < mb \<or> (ma = mb \<and> sa < sb)))"
  shows "sa + ma * 60 + ha * 3600 < sb + mb * 60 + hb * 3600"
proof -
  from assms(5) consider (h) "ha < hb" | (m) "ha = hb" "ma < mb" | (s) "ha = hb" "ma = mb" "sa < sb"
    by blast
  then show ?thesis
  proof cases
    case h
    with assms(1-4) show ?thesis by linarith
  next
    case m
    with assms(1-4) show ?thesis by linarith
  next
    case s
    then show ?thesis by simp
  qed
qed

lemma time_of_day_less:
  fixes ha ma sa ua hb mb sb ub :: nat
  assumes "ma < 60" "sa < 60" "ua < 1000000" "mb < 60" "sb < 60" "ub < 1000000"
    and "ha < hb \<or> (ha = hb \<and> (ma < mb \<or> (ma = mb \<and> (sa < sb \<or> (sa = sb \<and> ua < ub)))))"
  shows "(sa + ma * 60 + ha * 3600) * 1000000 + ua < (sb + mb * 60 + hb * 3600) * 1000000 + ub"
proof -
  from assms(7) consider
    (secs) "ha < hb \<or> (ha = hb \<and> (ma < mb \<or> (ma = mb \<and> sa < sb)))"
  | (us) "ha = hb" "ma = mb" "sa = sb" "ua < ub"
    by blast
  then show ?thesis
  proof cases
    case secs
    with assms(1,2,4,5) have "sa + ma * 60 + ha * 3600 < sb + mb * 60 + hb * 3600"
      by (rule seconds_less)
    with assms(3) show ?thesis by (intro scale_less) simp_all
  next
    case us
    then show ?thesis by simp
  qed
qed

lemma time_of_day_bound:
  assumes "valid_datetime d"
  shows "day_seconds d * 1000000 + microsecond d < 86400000000"
proof -
  from assms have "hour d < 24" "minute d < 60" "second d < 60" and us: "microsecond d < 1000000"
    by (simp_all add: valid_datetime_def)
  then have "day_seconds d < 86400" unfolding day_seconds_def by linarith
  with us scale_less [of "microsecond d" "day_seconds d" 86400 0] show ?thesis by simp
qed


lemma dt_less_unfold:
  "dt_less a b \<longleftrightarrow>
     (year a < year b \<or> (year a = year b \<and> (month a < month b \<or>
        (month a = month b \<and> day a < day b)))) \<or>
     (year a = year b \<and> month a = month b \<and> day a = day b \<and>
      (hour a < hour b \<or> (hour a = hour b \<and> (minute a < minute b \<or>
        (minute a = minute b \<and> (second a < second b \<or>
          (second a = second b \<and> microsecond a < microsecond b)))))))"
  unfolding dt_less_def dt_fields_def tuple_less.simps by blast

lemma tuple_less_total:
  "length xs = length ys \<Longrightarrow> tuple_less xs ys \<or> tuple_less ys xs \<or> xs = ys"
  by (induction xs ys rule: list_induct2) auto

lemma not_dt_less_cases:
  assumes "\<not> dt_less a b"
  shows "dt_less b a \<or> dt_fields a = dt_fields b"
proof -
  have "length (dt_fields a) = length (dt_fields b)" by (simp add: dt_fields_def)
  from tuple_less_total [OF this] assms show ?thesis by (simp add: dt_less_def)
qed

lemma dt_fields_eq_timestamp:
  "dt_fields a = dt_fields b \<Longrightarrow> timestamp_us a = timestamp_us b"
  by (simp add: dt_fields_def timestamp_us_def toordinal_def day_seconds_def)



lemma dt_less_imp_timestamp_less:
  assumes a: "valid_datetime a" and b: "valid_datetime b" and less: "dt_less a b"
  shows "timestamp_us a < timestamp_us b"
proof -
  from less [unfolded dt_less_unfold] show ?thesis
  proof
    assume "year a < year b \<or> (year a = year b \<and> (month a < month b \<or>
        (month a = month b \<and> day a < day b)))"
    with a b have "toordinal a < toordinal b" by (rule toordinal_less)
    then have "Suc (toordinal a) \<le> toordinal b" by simp
    then have "Suc (toordinal a) * 86400000000 \<le> toordinal b * 86400000000"
      by (rule mult_le_mono1)
    with time_of_day_bound [OF a] show ?thesis
      unfolding timestamp_us_def by simp
  next
    assume same: "year a = year b \<and> month a = month b \<and> day a = day b \<and>
      (hour a < hour b \<or> (hour a = hour b \<and> (minute a < minute b \<or>
        (minute a = minute b \<and> (second a < second b \<or>
          (second a = second b \<and> microsecond a < microsecond b))))))"
    then have ord: "toordinal a = toordinal b" by (simp add: toordinal_def)
    from same have lex: "hour a < hour b \<or> (hour a = hour b \<and> (minute a < minute b \<or>
        (minute a = minute b \<and> (second a < second b \<or>
          (second a = second b \<and> microsecond a < microsecond b)))))"
      by blast
    from a b have "minute a < 60" "second a < 60" "microsecond a < 1000000"
      "minute b < 60" "second b < 60" "microsecond b < 1000000"
      by (simp_all add: valid_datetime_def)
    from this lex have "day_seconds a * 1000000 + microsecond a <
                        day_seconds b * 1000000 + microsecond b"
      unfolding day_seconds_def by (rule time_of_day_less)
    then show ?thesis
      unfolding timestamp_us_def ord by simp
  qed
qed

lemma dt_less_iff_timestamp_less:
  assumes a: "valid_datetime a" and b: "valid_datetime b"
  shows "dt_less a b \<longleftrightarrow> timestamp_us a < timestamp_us b"
proof
  assume "dt_less a b"
  with a b show "timestamp_us a < timestamp_us b" by (rule dt_less_imp_timestamp_less)
next
  assume less: "timestamp_us a < timestamp_us b"
  show "dt_less a b"
  proof (rule ccontr)
    assume "\<not> dt_less a b"
    then have "dt_less b a \<or> dt_fields a = dt_fields b" by (rule not_dt_less_cases)
    then have "timestamp_us b \<le> timestamp_us a"
    proof
      assume "dt_less b a"
      with b a have "timestamp_us b < timestamp_us a" by (rule dt_less_imp_timestamp_less)
      then show ?thesis by simp
    next
      assume "dt_fields a = dt_fields b"
      then have "timestamp_us a = timestamp_us b" by (rule dt_fields_eq_timestamp)
      then show ?thesis by simp
    qed
    with less show False by simp
  qed
qed

lemma dt_sub_timestamp: "dt_sub a b = int (timestamp_us a) - int (timestamp_us b)"
  by (simp add: dt_sub_def timestamp_us_def algebra_simps)


lemma max_from_greatest:
  assumes "\<forall>x \<in> set (best # xs). valid_datetime x"
  shows "max_from best xs \<in> set (best # xs) \<and>
         (\<forall>x \<in> set (best # xs). timestamp_us x \<le> timestamp_us (max_from best xs))"
  using assms
proof (induction xs arbitrary: best)
  case Nil
  then show ?case by simp
next
  case (Cons x xs)
  let ?b = "if dt_less best x then x else best"
  from Cons.prems have vb: "valid_datetime best" and vx: "valid_datetime x" by simp_all
  from Cons.prems have "\<forall>y \<in> set (?b # xs). valid_datetime y" by simp
  from Cons.IH [OF this] have in_set: "max_from ?b xs \<in> set (?b # xs)"
    and ge: "\<forall>y \<in> set (?b # xs). timestamp_us y \<le> timestamp_us (max_from ?b xs)"
    by blast+
  from ge have b_le: "timestamp_us ?b \<le> timestamp_us (max_from ?b xs)" by simp
  have "timestamp_us best \<le> timestamp_us ?b" "timestamp_us x \<le> timestamp_us ?b"
    using dt_less_iff_timestamp_less [OF vb vx] by auto
  with b_le have "timestamp_us best \<le> timestamp_us (max_from ?b xs)"
    "timestamp_us x \<le> timestamp_us (max_from ?b xs)"
    by simp_all
  with in_set ge show ?case by auto
qed

lemma min_from_least:
  assumes "\<forall>x \<in> set (best # xs). valid_datetime x"
  shows "min_from best xs \<in> set (best # xs) \<and>
         (\<forall>x \<in> set (best # xs). timestamp_us (min_from best xs) \<le> timestamp_us x)"
  using assms
proof (induction xs arbitrary: best)
  case Nil
  then show ?case by simp
next
  case (Cons x xs)
  let ?b = "if dt_less x best then x else best"
  from Cons.prems have vb: "valid_datetime best" and vx: "valid_datetime x" by simp_all
  from Cons.prems have "\<forall>y \<in> set (?b # xs). valid_datetime y" by simp
  from Cons.IH [OF this] have in_set: "min_from ?b xs \<in> set (?b # xs)"
    and le: "\<forall>y \<in> set (?b # xs). timestamp_us (min_from ?b xs) \<le> timestamp_us y"
    by blast+
  from le have b_ge: "timestamp_us (min_from ?b xs) \<le> timestamp_us ?b" by simp
  have "timestamp_us ?b \<le> timestamp_us best" "timestamp_us ?b \<le> timestamp_us x"
    using dt_less_iff_timestamp_less [OF vx vb] by auto
  with b_ge have "timestamp_us (min_from ?b xs) \<le> timestamp_us best"
    "timestamp_us (min_from ?b xs) \<le> timestamp_us x"
    by simp_all
  with in_set le show ?case by auto
qed

lemma timestamp_dt_max:
  assumes "ts \<noteq> []" and "\<forall>t \<in> set ts. valid_datetime t"
  shows "timestamp_us (dt_max ts) = Max (set (map timestamp_us ts))"
proof -
  from assms(1) obtain t ts' where ts: "ts = t # ts'" by (cases ts) auto
  from max_from_greatest [of t ts'] assms(2)
  have "max_from t ts' \<in> set ts" "\<forall>x \<in> set ts. timestamp_us x \<le> timestamp_us (max_from t ts')"
    unfolding ts by blast+
  then have "Max (timestamp_us ` set ts) = timestamp_us (max_from t ts')"
    by (intro Max_eqI) auto
  then show ?thesis by (simp add: dt_max_def ts)
qed

lemma timestamp_dt_min:
  assumes "ts \<noteq> []" and "\<forall>t \<in> set ts. valid_datetime t"
  shows "timestamp_us (dt_min ts) = Min (set (map timestamp_us ts))"
proof -
  from assms(1) obtain t ts' where ts: "ts = t # ts'" by (cases ts) auto
  from min_from_least [of t ts'] assms(2)
  have "min_from t ts' \<in> set ts" "\<forall>x \<in> set ts. timestamp_us (min_from t ts') \<le> timestamp_us x"
    unfolding ts by blast+
  then have "Min (timestamp_us ` set ts) = timestamp_us (min_from t ts')"
    by (intro Min_eqI) auto
  then show ?thesis by (simp add: dt_min_def ts)
qed

section \<open>Error frequencies\<close>

lemma error_patterns_track_event:
  "error_patterns (snd (track_event event_type uid md now s)) = error_patterns s"
  by (simp add: track_event_def Let_def)

lemma error_patterns_track_error:
  "error_patterns (snd (track_error error_type uid ctx now s)) =
     dict_append error_type
       \<lparr>err_user_id = uid, err_timestamp = now, err_context = or_empty ctx\<rparr> (error_patterns s)"
  by (simp add: track_error_def Let_def)

lemma error_patterns_replay:
  "distinct (map fst (error_patterns (replay calls))) \<and>
   (\<forall>(k, occs) \<in> set (error_patterns (replay calls)). occs \<noteq> [])"
proof (induction calls rule: rev_induct)
  case Nil
  then show ?case by (simp add: replay_def init_def)
next
  case (snoc c calls)
  show ?case
  proof (cases c)
    case (TrackEvent event_type uid md now)
    with snoc show ?thesis by (simp add: replay_snoc error_patterns_track_event)
  next
    case (TrackError error_type uid ctx now)
    let ?occ = "\<lparr>err_user_id = uid, err_timestamp = now, err_context = or_empty ctx\<rparr>"
    have ep: "error_patterns (replay (calls @ [c])) =
                dict_append error_type ?occ (error_patterns (replay calls))"
      by (simp add: replay_snoc TrackError error_patterns_track_error)
    have "distinct (map fst (dict_append error_type ?occ (error_patterns (replay calls))))"
      unfolding dict_append_def using snoc by (intro distinct_dict_upd) simp
    moreover have "occs \<noteq> []"
      if "(k, occs) \<in> set (dict_append error_type ?occ (error_patterns (replay calls)))" for k occs
      using dict_upd_mem [OF that [unfolded dict_append_def]] snoc by auto
    ultimately show ?thesis unfolding ep by blast
  qed
qed

lemma dict_set_fresh: "k \<notin> fst ` set d \<Longrightarrow> dict_set k v d = d @ [(k, v)]"
  by (induction d) (auto simp: dict_set_def)

lemma fold_dict_set_distinct:
  "distinct (map fst xs) \<Longrightarrow> fst ` set acc \<inter> fst ` set xs = {} \<Longrightarrow>
   fold (\<lambda>(k, v) acc. dict_set k (g v) acc) xs acc = acc @ map (\<lambda>(k, v). (k, g v)) xs"
proof (induction xs arbitrary: acc)
  case Nil
  then show ?case by simp
next
  case (Cons x xs)
  obtain k v where x: "x = (k, v)" by (cases x)
  from Cons.prems x have fresh: "k \<notin> fst ` set acc" by auto
  from Cons.prems x have "distinct (map fst xs)"
    and "fst ` set (acc @ [(k, g v)]) \<inter> fst ` set xs = {}"
    by auto
  from Cons.IH [OF this] show ?case
    by (simp add: x dict_set_fresh [OF fresh])
qed

lemma analyze_error_patterns_entries:
  assumes "distinct (map fst (error_patterns s))"
  shows "\<exists>r. fst (analyze_error_patterns s) = Inr r \<and>
             errors r = map (\<lambda>(k, occs). (k, error_entry occs)) (error_patterns s)"
  using fold_dict_set_distinct [OF assms, of "[]" error_entry]
  by (simp add: analyze_error_patterns_def Let_def)

lemma of_int_nat_diff: "(of_int (int a - int b) :: rat) = of_nat a - of_nat b"
  by simp

lemma error_frequency_span:
  assumes "occs \<noteq> []" and "\<forall>occ \<in> set occs. valid_datetime (err_timestamp occ)"
  shows "error_frequency occs = of_nat (length occs) / max (span_in_days occs) 1"
proof -
  let ?ts = "map err_timestamp occs"
  have ne: "?ts \<noteq> []" using assms(1) by simp
  have valid: "\<forall>t \<in> set ?ts. valid_datetime t" using assms(2) by simp
  have "time_span ?ts = int (Max (set (map timestamp_us ?ts))) - int (Min (set (map timestamp_us ?ts)))"
    unfolding time_span_def dt_sub_timestamp
    by (simp only: timestamp_dt_max [OF ne valid] timestamp_dt_min [OF ne valid])
  then have "total_seconds (time_span ?ts) / 86400 = span_in_days occs"
    by (simp add: total_seconds_def span_in_days_def comp_def)
  with ne show ?thesis by (simp add: error_frequency_def Let_def)
qed


lemma same_day_span:
  assumes ne: "occs \<noteq> []"
    and valid: "\<forall>occ \<in> set occs. valid_datetime (err_timestamp occ)"
    and same: "\<forall>occ \<in> set occs. same_calendar_day (err_timestamp occ) (err_timestamp (hd occs))"
  shows "span_in_days occs < 1"
proof -
  let ?S = "set (map (timestamp_us \<circ> err_timestamp) occs)"
  let ?o = "toordinal (err_timestamp (hd occs))"
  have fin: "finite ?S" and nonempty: "?S \<noteq> {}" using ne by simp_all
  have bounds: "?o * 86400000000 \<le> x \<and> x < ?o * 86400000000 + 86400000000" if "x \<in> ?S" for x
  proof -
    from that obtain occ where occ: "occ \<in> set occs" and x: "x = timestamp_us (err_timestamp occ)"
      by auto
    from same occ have "toordinal (err_timestamp occ) = ?o"
      by (simp add: same_calendar_day_def toordinal_def)
    moreover from valid occ have "day_seconds (err_timestamp occ) * 1000000 +
        microsecond (err_timestamp occ) < 86400000000"
      by (intro time_of_day_bound) simp
    ultimately show ?thesis unfolding x timestamp_us_def by simp
  qed
  have "Max ?S \<in> ?S" "Min ?S \<in> ?S" using fin nonempty by (rule Max_in, rule Min_in)
  then have "Max ?S < ?o * 86400000000 + 86400000000" "?o * 86400000000 \<le> Min ?S"
    using bounds by blast+
  then have "Max ?S < Min ?S + 86400000000" by simp
  then have "(of_nat (Max ?S) :: rat) < of_nat (Min ?S + 86400000000)"
    by (simp only: of_nat_less_iff)
  then show ?thesis by (simp add: span_in_days_def)
qed

text \<open>
  C5. On every log, an error type of the error store has at least one occurrence, and when
  the timestamps are valid datetimes its reported \<open>frequency_per_day\<close> is the number of
  occurrences divided by the larger of \<open>1\<close> and the span in days between its earliest and
  its latest timestamp. When all its occurrences fall on one calendar day, the reported
  frequency is the number of occurrences itself.
\<close>

theorem frequency_per_day_formula:
  assumes "(error_type, occs) \<in> set (error_patterns (replay calls))"
    and "\<forall>occ \<in> set occs. valid_datetime (err_timestamp occ)"
  shows "occs \<noteq> [] \<and>
    (\<exists>r data. fst (analyze_error_patterns (replay calls)) = Inr r \<and>
       map_of (errors r) error_type = Some data \<and>
       occurrences data = length occs \<and>
       frequency_per_day data = of_nat (length occs) / max (span_in_days occs) 1 \<and>
       ((\<forall>occ \<in> set occs. same_calendar_day (err_timestamp occ) (err_timestamp (hd occs))) \<longrightarrow>
        frequency_per_day data = of_nat (length occs)))"
proof -
  let ?s = "replay calls"
  from error_patterns_replay [of calls] assms(1)
  have d: "distinct (map fst (error_patterns ?s))" and ne: "occs \<noteq> []"
    by auto
  from analyze_error_patterns_entries [OF d] obtain r where
    r: "fst (analyze_error_patterns ?s) = Inr r"
    and es: "errors r = map (\<lambda>(k, occs). (k, error_entry occs)) (error_patterns ?s)"
    by blast
  have "map_of (error_patterns ?s) error_type = Some occs"
    using d assms(1) by simp
  then have m: "map_of (errors r) error_type = Some (error_entry occs)"
    unfolding es by (simp add: map_of_map)
  have f: "frequency_per_day (error_entry occs) = of_nat (length occs) / max (span_in_days occs) 1"
    using error_frequency_span [OF ne assms(2)] by (simp add: error_entry_def Let_def)
  have "frequency_per_day (error_entry occs) = of_nat (length occs)"
    if "\<forall>occ \<in> set occs. same_calendar_day (err_timestamp occ) (err_timestamp (hd occs))"
  proof -
    from same_day_span [OF ne assms(2) that] have "max (span_in_days occs) 1 = 1" by simp
    with f show ?thesis by simp
  qed
  moreover have "occurrences (error_entry occs) = length occs"
    by (simp add: error_entry_def Let_def)
  ultimately show ?thesis using ne r m f by blast
qed

theorem frequency_per_day_formula_witness:
  "(''timeout'', same_day_occurrences) \<in> set (error_patterns (replay same_day_log)) \<and>
   valid_datetime example_clock \<and>
   valid_datetime (example_clock\<lparr>hour := 17, minute := 30\<rparr>) \<and>
   valid_datetime (example_clock\<lparr>hour := 23\<rparr>) \<and>
   same_calendar_day (example_clock\<lparr>hour := 17, minute := 30\<rparr>) example_clock \<and>
   same_calendar_day (example_clock\<lparr>hour := 23\<rparr>) example_clock \<and>
   (case fst (analyze_error_patterns (replay same_day_log)) of
      Inl e \<Rightarrow> None
    | Inr r \<Rightarrow> map_option (\<lambda>data. (occurrences data, frequency_per_day data))
               (map_of (errors r) ''timeout'')) = Some (3, 3)"
proof -
  have h1: "(''timeout'', same_day_occurrences) \<in> set (error_patterns (replay same_day_log))"
    by (simp add: same_day_log_def same_day_occurrences_def replay_def track_error_def Let_def
          init_def dict_append_def or_empty_def)
  have v: "valid_datetime example_clock"
    "valid_datetime (example_clock\<lparr>hour := 17, minute := 30\<rparr>)"
    "valid_datetime (example_clock\<lparr>hour := 23\<rparr>)"
    by (simp_all add: valid_datetime_def example_clock_def days_in_month_def DAYS_IN_MONTH_def)
  have c: "same_calendar_day (example_clock\<lparr>hour := 17, minute := 30\<rparr>) example_clock"
    "same_calendar_day (example_clock\<lparr>hour := 23\<rparr>) example_clock"
    by (simp_all add: same_calendar_day_def)
  have h2: "\<forall>occ \<in> set same_day_occurrences. valid_datetime (err_timestamp occ)"
    using v by (simp add: same_day_occurrences_def)
  have h3: "\<forall>occ \<in> set same_day_occurrences.
      same_calendar_day (err_timestamp occ) (err_timestamp (hd same_day_occurrences))"
    using c by (simp add: same_day_occurrences_def same_calendar_day_def)
  have len: "length same_day_occurrences = 3" by (simp add: same_day_occurrences_def)
  from frequency_per_day_formula [OF h1 h2] h3 len
  have "\<exists>r data. fst (analyze_error_patterns (replay same_day_log)) = Inr r \<and>
      map_of (errors r) ''timeout'' = Some data \<and>
      occurrences data = 3 \<and> frequency_per_day data = 3"
    by auto
  then have "(case fst (analyze_error_patterns (replay same_day_log)) of
      Inl e \<Rightarrow> None
    | Inr r \<Rightarrow> map_option (\<lambda>data. (occurrences data, frequency_per_day data))
               (map_of (errors r) ''timeout'')) = Some (3, 3)"
    by auto
  with h1 v c show ?thesis by blast
qed

end
